theory Spec2Isabelle
  imports Complex_Main "HOL-Library.Sublist" "HOL-Library.Word" "HOL-Library.Log_Nat"
begin

section \<open>The frame extractor (utils/frameExtractor, src/unnamed/part\_002 lines 475--751)\<close>

text \<open>
  The module exports one asynchronous function, \<open>extractFrames(videoUrl, manualTimestamps)\<close>.
  It downloads a video into the temporary directory, probes its duration, chooses up to five
  sample timestamps, captures one frame per timestamp with ffmpeg, transcodes the audio track
  and deletes the downloaded video.

  Everything outside the process (the HTTP servers, the tikwm API, the yt-dlp and ffmpeg
  binaries, the clock) is a field of the record \<open>world\<close>; the files of the temporary directory
  are a partial map from paths to contents, threaded through every function; a thrown
  \<open>Error\<close> is a value \<open>Inl e\<close>.

  JavaScript numbers are IEEE-754 doubles. A number is modelled by the real it denotes, and
  a multiplication of the source is the exact product rounded to the nearest double. A
  timestamp is an integer number of seconds, an \<open>int\<close>.
\<close>

subsection \<open>Doubles\<close>

text \<open>The floor of the binary logarithm of a positive real.\<close>

definition flog2 :: "real \<Rightarrow> int" where
  "flog2 x = (if 1 \<le> x then bitlen \<lfloor>x\<rfloor> - 1 else - bitlen (\<lceil>1 / x\<rceil> - 1))"

text \<open>Rounding to the nearest integer, a tie going to the even one.\<close>

definition round_even :: "real \<Rightarrow> int" where
  "round_even r =
     (let f = \<lfloor>r\<rfloor>; h = r - of_int f in
      if h < 1 / 2 then f else if 1 / 2 < h then f + 1 else if even f then f else f + 1)"

text \<open>
  The double nearest to a real, ties to even: a multiple of \<open>2\<^sup>e\<close> where \<open>e\<close> leaves 53
  significant bits, and is at least \<open>-1074\<close>, the spacing of the subnormal numbers. A numeric
  literal of the source denotes \<open>round64\<close> of its decimal value. Overflow to \<open>Infinity\<close> is
  left out: the sampler multiplies a duration by constants below 1.
\<close>

definition round64 :: "real \<Rightarrow> real" where
  "round64 x =
     (if x = 0 then 0
      else (let a = \<bar>x\<bar>; e = max (- 1074) (flog2 a - 52)
            in sgn x * (of_int (round_even (a / 2 powi e)) * 2 powi e)))"

text \<open>The operator \<open>*\<close> on two doubles.\<close>

definition dmul :: "real \<Rightarrow> real \<Rightarrow> real" where
  "dmul x y = round64 (x * y)"

subsection \<open>Strings and paths\<close>

definition digit_char :: "nat \<Rightarrow> char" where
  "digit_char n = ''0123456789'' ! n"

text \<open>The decimal digits of a natural number.\<close>

function show_nat :: "nat \<Rightarrow> string" where
  "show_nat n =
     (if n < 10 then [digit_char n] else show_nat (n div 10) @ [digit_char (n mod 10)])"
  by pat_completeness auto
termination
  by (relation "measure id") auto

declare show_nat.simps [simp del]

text \<open>
  A template literal prints a number with \<open>Number::toString\<close>: the shortest string of decimal
  digits \<open>s\<close> such that \<open>s \<times> 10\<^sup>j\<close> rounds to the number, written in full when the value is
  below \<open>10\<^sup>2\<^sup>1\<close> and with an exponent otherwise. \<open>shortest_from x k\<close> is the value
  \<open>s \<times> 10\<^sup>j\<close> for a non-negative integer \<open>x\<close>, trying \<open>k\<close> digits, then \<open>k + 1\<close>, and so
  on; of two candidates with the same number of digits it takes the one closer to \<open>x\<close>.
\<close>

function shortest_from :: "nat \<Rightarrow> nat \<Rightarrow> nat" where
  "shortest_from x k =
     (let nd = length (show_nat x) in
      if nd \<le> k then x
      else (let p = 10 ^ (nd - k); lo = (x div p) * p; hi = lo + p;
                okl = (round64 (real lo) = round64 (real x));
                okh = (round64 (real hi) = round64 (real x))
            in if okl \<and> okh then
                 (if x - lo < hi - x \<or> (x - lo = hi - x \<and> even (x div p)) then lo else hi)
               else if okl then lo
               else if okh then hi
               else shortest_from x (k + 1)))"
  by pat_completeness auto
termination
  by (relation "measure (\<lambda>(x, k). length (show_nat x) - k)") auto

declare shortest_from.simps [simp del]

text \<open>The form \<open>d.ddde+n\<close> of a value of at least \<open>10\<^sup>2\<^sup>1\<close>.\<close>

definition exponent_form :: "nat \<Rightarrow> string" where
  "exponent_form c =
     (let ds = show_nat c;
          sig = rev (dropWhile (\<lambda>d. d = CHR ''0'') (rev ds));
          mantissa = (if length sig \<le> 1 then sig else hd sig # CHR ''.'' # tl sig)
      in mantissa @ ''e+'' @ show_nat (length ds - 1))"

text \<open>
  The string of a non-negative integer. Every integer below \<open>2\<^sup>5\<^sup>3\<close> is a double and its
  shortest digits are its decimal digits. A larger integer stands for the double nearest to
  it.
\<close>

definition number_string :: "nat \<Rightarrow> string" where
  "number_string x =
     (if x < 2 ^ 53 then show_nat x
      else (let c = shortest_from (nat \<lfloor>round64 (real x)\<rfloor>) 1
            in if c < 10 ^ 21 then show_nat c else exponent_form c))"

definition show_int :: "int \<Rightarrow> string" where
  "show_int i =
     (if i < 0 then CHR ''-'' # number_string (nat (- i)) else number_string (nat i))"

text \<open>\<open>Number.isSafeInteger\<close>: the integers that are printed digit by digit.\<close>

definition isSafeInteger :: "int \<Rightarrow> bool" where
  "isSafeInteger t = (\<bar>t\<bar> < 2 ^ 53)"

text \<open>\<open>path.join(dir, name)\<close> for a directory without a trailing separator.\<close>

definition path_join :: "string \<Rightarrow> string \<Rightarrow> string" where
  "path_join dir name = dir @ ''/'' @ name"

text \<open>\<open>String.prototype.includes\<close>.\<close>

definition str_includes :: "string \<Rightarrow> string \<Rightarrow> bool" where
  "str_includes s sub = sublist sub s"

text \<open>Lines 617, 674--675 and 729: the three kinds of transient file names.\<close>

definition videoPathOf :: "string \<Rightarrow> nat \<Rightarrow> string" where
  "videoPathOf tempDir videoId =
     path_join tempDir (''socially_video_'' @ number_string videoId @ ''.mp4'')"

definition frameFilename :: "nat \<Rightarrow> int \<Rightarrow> string" where
  "frameFilename videoId timestamp =
     ''frame_'' @ number_string videoId @ ''_'' @ show_int timestamp @ ''.jpg''"

definition framePathOf :: "string \<Rightarrow> nat \<Rightarrow> int \<Rightarrow> string" where
  "framePathOf tempDir videoId timestamp = path_join tempDir (frameFilename videoId timestamp)"

definition audioPathOf :: "string \<Rightarrow> nat \<Rightarrow> string" where
  "audioPathOf tempDir videoId =
     path_join tempDir (''audio_'' @ number_string videoId @ ''.mp3'')"

subsection \<open>Files, errors and the outside world\<close>

type_synonym path = string
type_synonym bytes = "8 word list"
type_synonym fs = "path \<rightharpoonup> bytes"

datatype error =
    AxiosError
  | HttpStatusError nat
  | StreamError
  | FileTooSmall nat
  | TikwmFailed
  | YtDlpNotAvailable
  | YtDlpFailed
  | FileNotCreated
  | ProbeError
  | TypeError
  | NoFramesError
  | AudioExtractionError

text \<open>
  \<open>AxiosError\<close>: the promise of \<open>axios(...)\<close> rejected (network failure, timeout, or a status
  outside 2xx, which axios rejects by default).
  \<open>HttpStatusError s\<close>: line 530. \<open>StreamError\<close>: lines 538--539. \<open>FileTooSmall n\<close>: line 545.
  \<open>TikwmFailed\<close>: line 583. \<open>YtDlpNotAvailable\<close>: line 596. \<open>YtDlpFailed\<close>: line 601.
  \<open>FileNotCreated\<close>: line 640. \<open>ProbeError\<close>: line 649. \<open>TypeError\<close>: line 671, where
  \<open>duration.toFixed\<close> is called on a duration that is a string. \<open>NoFramesError\<close>: line 723.
  \<open>AudioExtractionError\<close>: line 735.
\<close>

datatype http_body = Complete bytes | Broken bytes

datatype http_result = Rejected | Response nat http_body

record tikwm_data =
  play :: "string option"
  hdplay :: "string option"
  wmplay :: "string option"

record tikwm_body =
  code :: "int option"
  data :: "tikwm_data option"

datatype api_result = ApiRejected | ApiResponse "tikwm_body option"

text \<open>
  What \<open>ffprobe\<close> reports as \<open>metadata.format.duration\<close>: a number (\<open>Metadata (Some x)\<close>),
  nothing (\<open>Metadata None\<close>), or a string that is not a number, such as \<open>N/A\<close>
  (\<open>MetadataText\<close>).
\<close>

datatype probe_result = ProbeFailed | Metadata "real option" | MetadataText string

datatype seek_mode = SeekInput | SeekOutput

text \<open>
  An ffmpeg run is described by whether it ended without error and by what it left at its
  output path (\<open>None\<close>: nothing written). A yt-dlp run likewise. Each field of the world
  is a function of its inputs: the same run on the same input has the same outcome.
\<close>

type_synonym run_result = "bool \<times> bytes option"

record world =
  now :: nat
  tmpdir :: string
  http_get :: "string \<Rightarrow> http_result"
  tikwm :: "string \<Rightarrow> api_result"
  localBin_exists :: bool
  which_ytdlp :: "string option"
  ytdlp_exec :: "string \<Rightarrow> run_result"
  ffprobe :: "bytes option \<Rightarrow> probe_result"
  ffmpeg_frame :: "seek_mode \<Rightarrow> bytes option \<Rightarrow> int \<Rightarrow> run_result"
  ffmpeg_audio :: "bytes option \<Rightarrow> run_result"
  toBase64 :: "bytes \<Rightarrow> string"

record frame =
  timestamp :: int
  base64 :: string
  mimeType :: string

record extraction =
  frames :: "frame list"
  audioPath :: path

definition write_out :: "path \<Rightarrow> bytes option \<Rightarrow> fs \<Rightarrow> fs" where
  "write_out p out files = (case out of None \<Rightarrow> files | Some b \<Rightarrow> files(p \<mapsto> b))"

text \<open>\<open>if (fs.existsSync(p)) fs.unlinkSync(p)\<close>.\<close>

definition unlink_if_exists :: "path \<Rightarrow> fs \<Rightarrow> fs" where
  "unlink_if_exists p files = (if files p \<noteq> None then files(p := None) else files)"

text \<open>JavaScript truthiness of a string-valued JSON field, and \<open>a || b\<close>.\<close>

definition truthy :: "string option \<Rightarrow> bool" where
  "truthy v = (case v of None \<Rightarrow> False | Some s \<Rightarrow> s \<noteq> [])"

definition js_or :: "string option \<Rightarrow> string option \<Rightarrow> string option" where
  "js_or a b = (if truthy a then a else b)"

subsection \<open>downloadDirect (lines 513--547)\<close>

text \<open>axios resolves only for a status in 2xx (its default \<open>validateStatus\<close>).\<close>

definition axios_get :: "world \<Rightarrow> string \<Rightarrow> error + nat \<times> http_body" where
  "axios_get w url =
     (case http_get w url of
        Rejected \<Rightarrow> Inl AxiosError
      | Response status body \<Rightarrow>
          if 200 \<le> status \<and> status < 300 then Inr (status, body) else Inl AxiosError)"

definition downloadDirect :: "world \<Rightarrow> string \<Rightarrow> path \<Rightarrow> fs \<Rightarrow> (error + unit) \<times> fs" where
  "downloadDirect w url destPath files =
     (case axios_get w url of
        Inl e \<Rightarrow> (Inl e, files)
      | Inr (status, body) \<Rightarrow>
          if status \<noteq> 200 then (Inl (HttpStatusError status), files)
          else (case body of
                  Broken part \<Rightarrow> (Inl StreamError, files(destPath \<mapsto> part))
                | Complete b \<Rightarrow>
                    (let files' = files(destPath \<mapsto> b) in
                     if length b < 1000 then (Inl (FileTooSmall (length b)), files')
                     else (Inr (), files'))))"

subsection \<open>resolveTikTokUrl (lines 555--584)\<close>

definition resolveTikTokUrl :: "world \<Rightarrow> string \<Rightarrow> error + string" where
  "resolveTikTokUrl w url =
     (let cleanUrl = takeWhile (\<lambda>c. c \<noteq> CHR ''?'') url in
      case tikwm w cleanUrl of
        ApiRejected \<Rightarrow> Inl AxiosError
      | ApiResponse body \<Rightarrow>
          (case body of
             None \<Rightarrow> Inl TikwmFailed
           | Some b \<Rightarrow>
               if code b = Some 0 then
                 (case data b of
                    None \<Rightarrow> Inl TikwmFailed
                  | Some d \<Rightarrow>
                      (let videoUrl = js_or (js_or (play d) (hdplay d)) (wmplay d) in
                       if truthy videoUrl then
                         (case videoUrl of Some u \<Rightarrow> Inr u | None \<Rightarrow> Inl TikwmFailed)
                       else Inl TikwmFailed))
               else Inl TikwmFailed))"

subsection \<open>downloadWithYtDlp (lines 589--605)\<close>

definition localBin :: string where
  "localBin = ''../yt-dlp''"

definition find_ytdlp :: "world \<Rightarrow> string option" where
  "find_ytdlp w = (if localBin_exists w then Some localBin else which_ytdlp w)"

definition downloadWithYtDlp :: "world \<Rightarrow> string \<Rightarrow> path \<Rightarrow> fs \<Rightarrow> (error + unit) \<times> fs" where
  "downloadWithYtDlp w url destPath files =
     (if \<not> truthy (find_ytdlp w) then (Inl YtDlpNotAvailable, files)
      else (let (ok, out) = ytdlp_exec w url;
                files' = write_out destPath out files
            in if ok then (Inr (), files') else (Inl YtDlpFailed, files')))"

subsection \<open>The sampler (lines 655--668)\<close>

text \<open>\<open>[...new Set(xs)]\<close>: the elements of \<open>xs\<close> in order of first occurrence.\<close>

fun set_add_all :: "'a list \<Rightarrow> 'a list \<Rightarrow> 'a list" where
  "set_add_all acc [] = acc"
| "set_add_all acc (x # xs) =
     (if x \<in> set acc then set_add_all acc xs else set_add_all (acc @ [x]) xs)"

definition dedupe :: "'a list \<Rightarrow> 'a list" where
  "dedupe xs = set_add_all [] xs"

text \<open>
  Lines 660--666 before the flooring. The literals \<open>0.1\<close> and \<open>0.9\<close> are not doubles and
  stand for the doubles nearest to them; each product is rounded.
\<close>

definition candidates :: "real \<Rightarrow> real list" where
  "candidates duration =
     [0, min 2 (dmul duration (round64 0.1)), dmul duration (round64 0.25),
      dmul duration (round64 0.5), dmul duration (round64 0.9)]"

definition sampleTimestamps :: "real \<Rightarrow> int list option \<Rightarrow> int list" where
  "sampleTimestamps duration manualTimestamps =
     (case manualTimestamps of
        Some ts \<Rightarrow> ts
      | None \<Rightarrow>
          take 5 (filter (\<lambda>t. real_of_int t < duration)
                    (dedupe (map floor (candidates duration)))))"

text \<open>\<open>metadata.format.duration || 30\<close> for a duration that is a number or missing.\<close>

definition durationOf :: "real option \<Rightarrow> real" where
  "durationOf d = (case d of None \<Rightarrow> 30 | Some x \<Rightarrow> if x = 0 then 30 else x)"

subsection \<open>The frame loop (lines 673--720)\<close>

text \<open>
  One promise per timestamp: a fast seek; on its error an accurate seek; the promise rejects
  only when both failed. Each run may leave a file at the frame path, whatever its outcome.
\<close>

definition captureFrame :: "world \<Rightarrow> path \<Rightarrow> int \<Rightarrow> path \<Rightarrow> fs \<Rightarrow> bool \<times> fs" where
  "captureFrame w videoPath ts framePath files =
     (let (ok1, out1) = ffmpeg_frame w SeekInput (files videoPath) ts;
          files1 = write_out framePath out1 files
      in if ok1 then (True, files1)
         else (let (ok2, out2) = ffmpeg_frame w SeekOutput (files1 videoPath) ts
               in (ok2, write_out framePath out2 files1)))"

fun frameLoop ::
  "world \<Rightarrow> string \<Rightarrow> nat \<Rightarrow> path \<Rightarrow> int list \<Rightarrow> frame list \<Rightarrow> fs \<Rightarrow> frame list \<times> fs" where
  "frameLoop w tempDir videoId videoPath [] acc files = (acc, files)"
| "frameLoop w tempDir videoId videoPath (ts # rest) acc files =
     (let framePath = path_join tempDir (frameFilename videoId ts);
          (resolved, files1) = captureFrame w videoPath ts framePath files
      in if resolved then
           (case files1 framePath of
              Some frameBuffer \<Rightarrow>
                frameLoop w tempDir videoId videoPath rest
                  (acc @ [\<lparr>timestamp = ts, base64 = toBase64 w frameBuffer,
                           mimeType = ''image/jpeg''\<rparr>])
                  (files1(framePath := None))
            | None \<Rightarrow> frameLoop w tempDir videoId videoPath rest acc files1)
         else frameLoop w tempDir videoId videoPath rest acc files1)"

subsection \<open>Audio extraction (lines 728--737)\<close>

definition extractAudio :: "world \<Rightarrow> path \<Rightarrow> path \<Rightarrow> fs \<Rightarrow> bool \<times> fs" where
  "extractAudio w videoPath audioFile files =
     (let (ok, out) = ffmpeg_audio w (files videoPath) in (ok, write_out audioFile out files))"

subsection \<open>extractFrames (lines 611--749)\<close>

text \<open>Lines 622--637: which download strategy runs.\<close>

definition downloadStage :: "world \<Rightarrow> string \<Rightarrow> path \<Rightarrow> fs \<Rightarrow> (error + unit) \<times> fs" where
  "downloadStage w videoUrl videoPath files =
     (if str_includes videoUrl ''tiktok.com'' then
        (case resolveTikTokUrl w videoUrl of
           Inl apiErr \<Rightarrow> downloadWithYtDlp w videoUrl videoPath files
         | Inr directUrl \<Rightarrow>
             (case downloadDirect w directUrl videoPath files of
                (Inl apiErr, files') \<Rightarrow> downloadWithYtDlp w videoUrl videoPath files'
              | (Inr u, files') \<Rightarrow> (Inr u, files')))
      else downloadDirect w videoUrl videoPath files)"

text \<open>
  Lines 722--742: what follows the frame loop, given the frames it collected and the files
  it left.
\<close>

definition finishExtraction ::
  "world \<Rightarrow> frame list \<times> fs \<Rightarrow> (error + extraction) \<times> fs" where
  "finishExtraction w loopResult =
     (let tempDir = tmpdir w; videoId = now w; videoPath = videoPathOf tempDir videoId;
          (frms, files2) = loopResult
      in if frms = [] then (Inl NoFramesError, files2)
         else (let audioFile = audioPathOf tempDir videoId;
                   (ok, files3) = extractAudio w videoPath audioFile files2
               in if ok then
                    (Inr \<lparr>frames = frms, audioPath = audioFile\<rparr>,
                     unlink_if_exists videoPath files3)
                  else (Inl AudioExtractionError, files3)))"

text \<open>Lines 670--742: the frame loop over the chosen timestamps, then the rest.\<close>

definition extractionStage ::
  "world \<Rightarrow> int list \<Rightarrow> fs \<Rightarrow> (error + extraction) \<times> fs" where
  "extractionStage w timestamps files1 =
     finishExtraction w
       (frameLoop w (tmpdir w) (now w) (videoPathOf (tmpdir w) (now w)) timestamps [] files1)"

text \<open>
  Lines 639--742: the rest of the \<open>try\<close> block, after the download. A duration that is a
  non-empty string is kept by \<open>||\<close>; the arithmetic of the sampler turns it into \<open>NaN\<close> without
  an error, and line 671 then raises a \<open>TypeError\<close>, with or without manual timestamps,
  before the loop starts. An empty string is falsy and gives the default of 30 seconds.
\<close>

definition processVideo ::
  "world \<Rightarrow> int list option \<Rightarrow> fs \<Rightarrow> (error + extraction) \<times> fs" where
  "processVideo w manualTimestamps files1 =
     (let tempDir = tmpdir w; videoId = now w; videoPath = videoPathOf tempDir videoId in
      if files1 videoPath = None then (Inl FileNotCreated, files1)
      else (case ffprobe w (files1 videoPath) of
              ProbeFailed \<Rightarrow> (Inl ProbeError, files1)
            | MetadataText s \<Rightarrow>
                if s = [] then extractionStage w (sampleTimestamps 30 manualTimestamps) files1
                else (Inl TypeError, files1)
            | Metadata d \<Rightarrow>
                extractionStage w (sampleTimestamps (durationOf d) manualTimestamps) files1))"

definition tryBlock ::
  "world \<Rightarrow> string \<Rightarrow> int list option \<Rightarrow> fs \<Rightarrow> (error + extraction) \<times> fs" where
  "tryBlock w videoUrl manualTimestamps files =
     (case downloadStage w videoUrl (videoPathOf (tmpdir w) (now w)) files of
        (Inl e, files1) \<Rightarrow> (Inl e, files1)
      | (Inr u, files1) \<Rightarrow> processVideo w manualTimestamps files1)"

text \<open>The \<open>catch\<close> block (lines 744--748) deletes the video file and rethrows.\<close>

definition extractFrames ::
  "world \<Rightarrow> string \<Rightarrow> int list option \<Rightarrow> fs \<Rightarrow> (error + extraction) \<times> fs" where
  "extractFrames w videoUrl manualTimestamps files =
     (case tryBlock w videoUrl manualTimestamps files of
        (Inl e, files') \<Rightarrow>
          (Inl e, unlink_if_exists (videoPathOf (tmpdir w) (now w)) files')
      | (Inr r, files') \<Rightarrow> (Inr r, files'))"

subsection \<open>An earlier variant of the module (lines 894--1132)\<close>

text \<open>
  The file holds earlier variants of the same module. In the one at lines 894--1132,
  \<open>downloadDirect\<close> (lines 921--937) has no check of the status or of the size, and
  \<open>resolveTikTokUrl\<close> (lines 944--972) tries the HD URL first. They are kept here to record
  where that variant differs; the properties below are about the variant of lines 475--751.
  In \<open>downloadDirect_old\<close> the case \<open>Broken\<close> stands for an error of the writer only.
\<close>

definition downloadDirect_old :: "world \<Rightarrow> string \<Rightarrow> path \<Rightarrow> fs \<Rightarrow> (error + unit) \<times> fs" where
  "downloadDirect_old w url destPath files =
     (case axios_get w url of
        Inl e \<Rightarrow> (Inl e, files)
      | Inr (status, body) \<Rightarrow>
          (case body of
             Broken part \<Rightarrow> (Inl StreamError, files(destPath \<mapsto> part))
           | Complete b \<Rightarrow> (Inr (), files(destPath \<mapsto> b))))"

definition resolveTikTokUrl_old :: "world \<Rightarrow> string \<Rightarrow> error + string" where
  "resolveTikTokUrl_old w url =
     (let cleanUrl = takeWhile (\<lambda>c. c \<noteq> CHR ''?'') url in
      case tikwm w cleanUrl of
        ApiRejected \<Rightarrow> Inl AxiosError
      | ApiResponse body \<Rightarrow>
          (case body of
             None \<Rightarrow> Inl TikwmFailed
           | Some b \<Rightarrow>
               if code b = Some 0 then
                 (case data b of
                    None \<Rightarrow> Inl TikwmFailed
                  | Some d \<Rightarrow>
                      (let videoUrl = js_or (js_or (hdplay d) (play d)) (wmplay d) in
                       if truthy videoUrl then
                         (case videoUrl of Some u \<Rightarrow> Inr u | None \<Rightarrow> Inl TikwmFailed)
                       else Inl TikwmFailed))
               else Inl TikwmFailed))"

subsection \<open>What the captures of a world produce\<close>

text \<open>
  For stating which frames a run must return: a capture at a timestamp \<^emph>\<open>resolves\<close> when the
  fast seek or the accurate seek ended without error, and \<open>captureOutput\<close> is what the runs
  left at the frame path. A timestamp yields a frame when its capture resolves and left a
  file.
\<close>

definition captureResolves :: "world \<Rightarrow> bytes option \<Rightarrow> int \<Rightarrow> bool" where
  "captureResolves w v ts =
     (fst (ffmpeg_frame w SeekInput v ts) \<or> fst (ffmpeg_frame w SeekOutput v ts))"

definition captureOutput :: "world \<Rightarrow> bytes option \<Rightarrow> int \<Rightarrow> bytes option" where
  "captureOutput w v ts =
     (if fst (ffmpeg_frame w SeekInput v ts) then snd (ffmpeg_frame w SeekInput v ts)
      else (case snd (ffmpeg_frame w SeekOutput v ts) of
              Some b \<Rightarrow> Some b
            | None \<Rightarrow> snd (ffmpeg_frame w SeekInput v ts)))"

definition frameAt :: "world \<Rightarrow> bytes option \<Rightarrow> int \<Rightarrow> frame option" where
  "frameAt w v ts =
     (if captureResolves w v ts then
        map_option (\<lambda>b. \<lparr>timestamp = ts, base64 = toBase64 w b, mimeType = ''image/jpeg''\<rparr>)
          (captureOutput w v ts)
      else None)"

definition successfulFrames :: "world \<Rightarrow> bytes option \<Rightarrow> int list \<Rightarrow> frame list" where
  "successfulFrames w v tss = List.map_filter (frameAt w v) tss"

text \<open>The files that rejected captures leave behind.\<close>

fun leftovers :: "world \<Rightarrow> string \<Rightarrow> nat \<Rightarrow> bytes option \<Rightarrow> int list \<Rightarrow> fs \<Rightarrow> fs" where
  "leftovers w tempDir videoId v [] files = files"
| "leftovers w tempDir videoId v (ts # rest) files =
     leftovers w tempDir videoId v rest
       (if captureResolves w v ts then files
        else write_out (framePathOf tempDir videoId ts) (captureOutput w v ts) files)"

subsection \<open>Example worlds\<close>

definition video_bytes :: bytes where
  "video_bytes = replicate 1000 0"

text \<open>The durations \<open>32.4\<close> and \<open>3.333333333333333\<close> as doubles.\<close>

definition demo_duration :: real where
  "demo_duration = round64 32.4"

definition short_duration :: real where
  "short_duration = round64 3.333333333333333"

text \<open>
  A direct URL that downloads, a video of 32.4 seconds, captures that fail at the seconds 2
  and 16 and leave nothing, audio that transcodes; no yt-dlp, no tikwm.
\<close>

definition demo_world :: world where
  "demo_world =
     \<lparr>now = 1700000000000, tmpdir = ''/tmp'',
      http_get = (\<lambda>url. Response 200 (Complete video_bytes)),
      tikwm = (\<lambda>url. ApiRejected),
      localBin_exists = False, which_ytdlp = None,
      ytdlp_exec = (\<lambda>url. (False, None)),
      ffprobe = (\<lambda>v. Metadata (Some demo_duration)),
      ffmpeg_frame = (\<lambda>mode v ts. if ts = 2 \<or> ts = 16 then (False, None) else (True, Some [1])),
      ffmpeg_audio = (\<lambda>v. (True, Some [2])),
      toBase64 = (\<lambda>b. ''AQ=='')\<rparr>"

definition demo_url :: string where
  "demo_url = ''https://cdn.example.com/v.mp4''"

definition tiktok_url :: string where
  "tiktok_url = ''https://www.tiktok.com/@a/video/1?lang=en''"

text \<open>The same world, but a failed capture leaves a partial file.\<close>

definition partial_world :: world where
  "partial_world =
     demo_world\<lparr>ffmpeg_frame :=
       (\<lambda>mode v ts. if ts = 2 \<or> ts = 16 then (False, Some [9]) else (True, Some [1]))\<rparr>"

text \<open>The same world, but the audio transcoding fails and leaves a partial file.\<close>

definition audio_fail_world :: world where
  "audio_fail_world = demo_world\<lparr>ffmpeg_audio := (\<lambda>v. (False, Some [3]))\<rparr>"


text \<open>The same world, but every capture succeeds.\<close>

definition all_frames_world :: world where
  "all_frames_world = demo_world\<lparr>ffmpeg_frame := (\<lambda>mode v ts. (True, Some [1]))\<rparr>"

text \<open>A world whose HTTP server answers 200 with a 12-byte body.\<close>

definition small_world :: world where
  "small_world = demo_world\<lparr>http_get := (\<lambda>url. Response 200 (Complete (replicate 12 0)))\<rparr>"

text \<open>A tikwm answer that offers all three URLs.\<close>

definition tikwm_world :: world where
  "tikwm_world =
     demo_world\<lparr>tikwm := (\<lambda>url. ApiResponse (Some
       \<lparr>code = Some 0,
        data = Some \<lparr>play = Some ''https://v.example/play.mp4'',
                     hdplay = Some ''https://v.example/hd.mp4'',
                     wmplay = Some ''https://v.example/wm.mp4''\<rparr>\<rparr>))\<rparr>"

text \<open>Answers that lack the play URL, and both the play URL and the HD variant.\<close>

definition hd_only_world :: world where
  "hd_only_world =
     demo_world\<lparr>tikwm := (\<lambda>url. ApiResponse (Some
       \<lparr>code = Some 0,
        data = Some \<lparr>play = None,
                     hdplay = Some ''https://v.example/hd.mp4'',
                     wmplay = Some ''https://v.example/wm.mp4''\<rparr>\<rparr>))\<rparr>"

definition wm_only_world :: world where
  "wm_only_world =
     demo_world\<lparr>tikwm := (\<lambda>url. ApiResponse (Some
       \<lparr>code = Some 0,
        data = Some \<lparr>play = Some [],
                     hdplay = None,
                     wmplay = Some ''https://v.example/wm.mp4''\<rparr>\<rparr>))\<rparr>"

text \<open>A world in which yt-dlp is installed and downloads the video.\<close>

definition ytdlp_world :: world where
  "ytdlp_world =
     demo_world\<lparr>which_ytdlp := Some ''/usr/bin/yt-dlp'',
                ytdlp_exec := (\<lambda>url. (True, Some video_bytes))\<rparr>"

definition other_url :: string where
  "other_url = ''https://cdn.example.com/w.mp4''"

text \<open>A world whose probe reports the duration \<open>N/A\<close>.\<close>

definition no_duration_world :: world where
  "no_duration_world = demo_world\<lparr>ffprobe := (\<lambda>v. MetadataText ''N/A'')\<rparr>"

text \<open>A tikwm answer with a play URL, whose download is a 12-byte body; no yt-dlp.\<close>

definition tikwm_small_world :: world where
  "tikwm_small_world =
     tikwm_world\<lparr>http_get := (\<lambda>url. Response 200 (Complete (replicate 12 0)))\<rparr>"

section \<open>Properties\<close>

subsection \<open>Rounding to a double\<close>

lemma pow2_nat: "0 \<le> k \<Longrightarrow> (2::real) powi k = 2 ^ nat k"
  by (simp add: power_int_def)

lemma flog2_bounds:
  assumes "0 < x"
  shows "2 powi (flog2 x) \<le> x" and "x < 2 powi (flog2 x + 1)"
proof -
  have "2 powi (flog2 x) \<le> x \<and> x < 2 powi (flog2 x + 1)"
  proof (cases "1 \<le> x")
    case True
    let ?n = "\<lfloor>x\<rfloor>"
    let ?b = "bitlen ?n"
    have n: "0 < ?n" using True by simp
    from bitlen_bounds[OF n] have lo: "2 ^ nat (?b - 1) \<le> ?n" and hi: "?n < 2 ^ nat ?b"
      by simp_all
    have b1: "1 \<le> ?b" using n bitlen_eq_zero_iff[of ?n] bitlen_nonneg[of ?n] by linarith
    have f: "flog2 x = ?b - 1" using True by (simp add: flog2_def)
    have "(2::real) ^ nat (?b - 1) \<le> of_int ?n" using lo
      by (metis of_int_le_iff of_int_numeral of_int_power)
    also have "\<dots> \<le> x" by simp
    finally have 1: "2 powi (flog2 x) \<le> x" using b1 by (simp add: f pow2_nat)
    have "?n + 1 \<le> 2 ^ nat ?b" using hi by simp
    then have "of_int (?n + 1) \<le> (2::real) ^ nat ?b"
      by (metis of_int_le_iff of_int_numeral of_int_power)
    moreover have "x < of_int (?n + 1)" by linarith
    ultimately have "x < 2 ^ nat ?b" by linarith
    then have 2: "x < 2 powi (flog2 x + 1)" using b1 by (simp add: f pow2_nat)
    from 1 2 show ?thesis by simp
  next
    case False
    let ?y = "1 / x"
    let ?m = "\<lceil>?y\<rceil> - 1"
    let ?b = "bitlen ?m"
    have y1: "1 < ?y" using False assms by simp
    then have m: "0 < ?m" by linarith
    from bitlen_bounds[OF m] have lo: "2 ^ nat (?b - 1) \<le> ?m" and hi: "?m < 2 ^ nat ?b"
      by simp_all
    have b1: "1 \<le> ?b" using m bitlen_eq_zero_iff[of ?m] bitlen_nonneg[of ?m] by linarith
    have f: "flog2 x = - ?b" using False by (simp add: flog2_def)
    have "?m + 1 \<le> 2 ^ nat ?b" using hi by simp
    then have "of_int (?m + 1) \<le> (2::real) ^ nat ?b"
      by (metis of_int_le_iff of_int_numeral of_int_power)
    moreover have "?y \<le> of_int (?m + 1)" by simp
    ultimately have "?y \<le> 2 ^ nat ?b" by linarith
    then have "1 \<le> x * 2 ^ nat ?b" using assms by (simp add: field_simps)
    then have "inverse (2 ^ nat ?b) \<le> x" by (simp add: field_simps)
    then have 1: "2 powi (flog2 x) \<le> x"
      using b1 by (simp add: f power_int_minus pow2_nat)
    have "(2::real) ^ nat (?b - 1) \<le> of_int ?m" using lo
      by (metis of_int_le_iff of_int_numeral of_int_power)
    moreover have "of_int ?m < ?y" by linarith
    ultimately have "2 ^ nat (?b - 1) < ?y" by linarith
    then have "x * 2 ^ nat (?b - 1) < 1" using assms by (simp add: field_simps)
    then have "x < inverse (2 ^ nat (?b - 1))" by (simp add: field_simps)
    moreover have "(2::real) powi (1 - ?b) = inverse (2 ^ nat (?b - 1))"
      using b1 power_int_minus[of "2::real" "?b - 1"] by (simp add: pow2_nat)
    ultimately have 2: "x < 2 powi (flog2 x + 1)" by (simp add: f)
    from 1 2 show ?thesis by simp
  qed
  then show "2 powi (flog2 x) \<le> x" and "x < 2 powi (flog2 x + 1)" by simp_all
qed

lemma pow2_less_iff: "(2::real) powi a < 2 powi b \<longleftrightarrow> a < b"
proof
  assume "(2::real) powi a < 2 powi b"
  show "a < b"
  proof (rule ccontr)
    assume "\<not> a < b"
    then have "b \<le> a" by simp
    then have "(2::real) powi b \<le> 2 powi a" by (intro power_int_increasing) simp_all
    with \<open>(2::real) powi a < 2 powi b\<close> show False by simp
  qed
next
  assume "a < b"
  then show "(2::real) powi a < 2 powi b" by (intro power_int_strict_increasing) simp_all
qed

lemma pow2_le_iff: "(2::real) powi a \<le> 2 powi b \<longleftrightarrow> a \<le> b"
  using pow2_less_iff[of b a] by (auto simp: not_less[symmetric])

lemma flog2_unique:
  assumes "0 < x" and "2 powi k \<le> x" and "x < 2 powi (k + 1)"
  shows "flog2 x = k"
proof -
  have "2 powi (flog2 x) < (2::real) powi (k + 1)"
    using flog2_bounds(1)[OF assms(1)] assms(3) by linarith
  then have a: "flog2 x < k + 1" by (simp add: pow2_less_iff)
  have "(2::real) powi k < 2 powi (flog2 x + 1)"
    using flog2_bounds(2)[OF assms(1)] assms(2) by linarith
  then have "k < flog2 x + 1" by (simp add: pow2_less_iff)
  with a show ?thesis by simp
qed

lemma flog2_mono:
  assumes "0 < x" and "x \<le> y"
  shows "flog2 x \<le> flog2 y"
proof -
  have y: "0 < y" using assms by simp
  have "2 powi (flog2 x) < (2::real) powi (flog2 y + 1)"
    using flog2_bounds(1)[OF assms(1)] flog2_bounds(2)[OF y] assms(2) by linarith
  then show ?thesis by (simp add: pow2_less_iff)
qed

lemma round_even_cases: "round_even r = \<lfloor>r\<rfloor> \<or> round_even r = \<lfloor>r\<rfloor> + 1"
  by (simp add: round_even_def Let_def)

lemma round_even_close: "\<bar>of_int (round_even r) - r\<bar> \<le> 1 / 2"
  unfolding round_even_def Let_def by (auto; linarith)

lemma round_even_of_int: "round_even (of_int n) = n"
  by (simp add: round_even_def)

lemma round_even_mono:
  assumes "r \<le> s"
  shows "round_even r \<le> round_even s"
proof (cases "\<lfloor>r\<rfloor> = \<lfloor>s\<rfloor>")
  case True
  with assms show ?thesis
    unfolding round_even_def Let_def by auto
next
  case False
  with assms have "\<lfloor>r\<rfloor> < \<lfloor>s\<rfloor>" using floor_mono[OF assms] by linarith
  moreover have "round_even r \<le> \<lfloor>r\<rfloor> + 1" using round_even_cases[of r] by auto
  moreover have "\<lfloor>s\<rfloor> \<le> round_even s" using round_even_cases[of s] by auto
  ultimately show ?thesis by linarith
qed

lemma round_even_le: "r \<le> of_int n \<Longrightarrow> round_even r \<le> n"
  using round_even_mono[of r "of_int n"] by (simp add: round_even_of_int)

lemma round_even_ge: "of_int n \<le> r \<Longrightarrow> n \<le> round_even r"
  using round_even_mono[of "of_int n" r] by (simp add: round_even_of_int)


lemma round64_pos:
  assumes "0 < x"
  shows "round64 x = of_int (round_even (x / 2 powi (max (- 1074) (flog2 x - 52))))
                       * 2 powi (max (- 1074) (flog2 x - 52))"
  using assms by (simp add: round64_def Let_def)

lemma round64_nonneg:
  assumes "0 \<le> x"
  shows "0 \<le> round64 x"
proof (cases "x = 0")
  case True
  then show ?thesis by (simp add: round64_def)
next
  case False
  with assms have x: "0 < x" by simp
  let ?e = "max (- 1074) (flog2 x - 52)"
  have "of_int 0 \<le> x / 2 powi ?e" using x by simp
  then have "0 \<le> round_even (x / 2 powi ?e)" by (rule round_even_ge)
  then show ?thesis unfolding round64_pos[OF x] by simp
qed

lemma pow2_add: "(2::real) powi (a + b) = 2 powi a * 2 powi b"
  by (rule power_int_add) simp

lemma round64_mono:
  assumes "0 \<le> x" and "x \<le> y"
  shows "round64 x \<le> round64 y"
proof (cases "x = 0")
  case True
  then show ?thesis using round64_nonneg[of y] assms by (simp add: round64_def)
next
  case False
  with assms have x: "0 < x" and y: "0 < y" by simp_all
  let ?ex = "max (- 1074) (flog2 x - 52)"
  let ?ey = "max (- 1074) (flog2 y - 52)"
  have le: "?ex \<le> ?ey" using flog2_mono[OF x assms(2)] by simp
  show ?thesis
  proof (cases "?ex = ?ey")
    case True
    have "x / 2 powi ?ex \<le> y / 2 powi ?ex" using assms(2) by (simp add: divide_right_mono)
    then have "round_even (x / 2 powi ?ex) \<le> round_even (y / 2 powi ?ex)"
      by (rule round_even_mono)
    then have "of_int (round_even (x / 2 powi ?ex)) * 2 powi ?ex
             \<le> of_int (round_even (y / 2 powi ?ex)) * (2::real) powi ?ex"
      by (intro mult_right_mono) simp_all
    then show ?thesis unfolding round64_pos[OF x] round64_pos[OF y] True[symmetric] .
  next
    case False
    with le have lt: "?ex + 1 \<le> ?ey" by simp
    then have ey: "?ey = flog2 y - 52" by simp
    have "x < 2 powi (flog2 x + 1)" using flog2_bounds(2)[OF x] .
    also have "\<dots> \<le> 2 powi (?ex + 53)" by (simp add: pow2_le_iff)
    finally have "x / 2 powi ?ex \<le> 2 powi 53"
      by (simp add: pow2_add field_simps)
    then have "x / 2 powi ?ex \<le> of_int (2 ^ 53)" by simp
    then have "round_even (x / 2 powi ?ex) \<le> 2 ^ 53" by (rule round_even_le)
    then have "(of_int (round_even (x / 2 powi ?ex)) :: real) \<le> of_int (2 ^ 53)"
      by (simp only: of_int_le_iff)
    then have "of_int (round_even (x / 2 powi ?ex)) * 2 powi ?ex \<le> of_int (2 ^ 53) * (2::real) powi ?ex"
      by (intro mult_right_mono) simp_all
    also have "\<dots> = 2 powi (?ex + 53)" by (simp add: pow2_add)
    also have "\<dots> \<le> 2 powi (?ey + 52)" using lt by (simp add: pow2_le_iff)
    finally have 1: "round64 x \<le> 2 powi (?ey + 52)" unfolding round64_pos[OF x] .
    have "2 powi (flog2 y) \<le> y" using flog2_bounds(1)[OF y] .
    then have "2 powi (?ey + 52) \<le> y" by (simp add: ey)
    then have "2 powi 52 \<le> y / 2 powi ?ey" by (simp add: pow2_add field_simps)
    then have "of_int (2 ^ 52) \<le> y / 2 powi ?ey" by simp
    then have "2 ^ 52 \<le> round_even (y / 2 powi ?ey)" by (rule round_even_ge)
    then have "(of_int (2 ^ 52) :: real) \<le> of_int (round_even (y / 2 powi ?ey))"
      by (simp only: of_int_le_iff)
    then have m: "of_int (2 ^ 52) * (2::real) powi ?ey
                 \<le> of_int (round_even (y / 2 powi ?ey)) * 2 powi ?ey"
      by (intro mult_right_mono) simp_all
    have "(2::real) powi (?ey + 52) = of_int (2 ^ 52) * 2 powi ?ey"
      by (simp add: pow2_add)
    also note m
    finally have 2: "2 powi (?ey + 52) \<le> round64 y" unfolding round64_pos[OF y] .
    from 1 2 show ?thesis by linarith
  qed
qed

lemma round64_upper:
  assumes "0 < x"
  shows "round64 x \<le> x * (1001 / 1000) + 1 / 1000"
proof -
  let ?e = "max (- 1074) (flog2 x - 52)"
  let ?p = "(2::real) powi ?e"
  have p: "0 < ?p" by simp
  have "of_int (round_even (x / ?p)) \<le> x / ?p + 1 / 2"
    using round_even_close[of "x / ?p"] by linarith
  then have "of_int (round_even (x / ?p)) * ?p \<le> (x / ?p + 1 / 2) * ?p"
    by (intro mult_right_mono) simp_all
  also have "\<dots> = x + ?p / 2" by (simp add: field_simps)
  finally have r: "round64 x \<le> x + ?p / 2" unfolding round64_pos[OF assms] .
  have "?p \<le> x / 1000 + 1 / 1000"
  proof (cases "flog2 x - 52 \<le> - 1074")
    case True
    then have "?e = - 1074" by simp
    then have "?p = 2 powi (- 1074)" by simp
    also have "\<dots> \<le> 2 powi (- 10)" by (simp add: pow2_le_iff)
    also have "\<dots> \<le> 1 / 1000" by (simp add: power_int_minus)
    finally show ?thesis using assms by linarith
  next
    case False
    then have "?e = flog2 x - 52" by simp
    then have "?p = 2 powi (flog2 x) * 2 powi (- 52)" using pow2_add[of "flog2 x" "- 52"] by simp
    also have "\<dots> \<le> x * 2 powi (- 52)"
      using flog2_bounds(1)[OF assms] by (intro mult_right_mono) simp_all
    also have "\<dots> \<le> x * 2 powi (- 10)"
      using assms by (intro mult_left_mono) (simp_all add: pow2_le_iff)
    also have "\<dots> \<le> x * (1 / 1000)"
      using assms by (intro mult_left_mono) (simp_all add: power_int_minus)
    finally show ?thesis by simp
  qed
  with r assms show ?thesis by linarith
qed


lemma round_even_at:
  assumes "of_int n - 1 / 2 < r" and "r < of_int n + 1 / 2"
  shows "round_even r = n"
proof -
  have "\<lfloor>r\<rfloor> = n \<or> \<lfloor>r\<rfloor> = n - 1" using assms by linarith
  then show ?thesis
  proof
    assume "\<lfloor>r\<rfloor> = n"
    with assms show ?thesis by (simp add: round_even_def Let_def)
  next
    assume "\<lfloor>r\<rfloor> = n - 1"
    with assms show ?thesis by (simp add: round_even_def Let_def)
  qed
qed

lemma round64_at:
  assumes "0 < x" and "2 powi k \<le> x" and "x < 2 powi (k + 1)"
    and "of_int n - 1 / 2 < x / 2 powi (max (- 1074) (k - 52))"
    and "x / 2 powi (max (- 1074) (k - 52)) < of_int n + 1 / 2"
  shows "round64 x = of_int n * 2 powi (max (- 1074) (k - 52))"
proof -
  have "flog2 x = k" using assms(1,2,3) by (rule flog2_unique)
  moreover have "round_even (x / 2 powi (max (- 1074) (k - 52))) = n"
    using assms(4,5) by (rule round_even_at)
  ultimately show ?thesis unfolding round64_pos[OF assms(1)] by simp
qed


text \<open>The literals of the sampler and the two example durations, as doubles.\<close>

lemma round64_0_1: "round64 0.1 = 3602879701896397 / 2 ^ 55"
proof -
  have "round64 0.1 = of_int 7205759403792794 * 2 powi (max (- 1074) (- 4 - 52))"
    by (rule round64_at) simp_all
  then show ?thesis by simp
qed

lemma round64_0_25: "round64 0.25 = 1 / 4"
proof -
  have "round64 0.25 = of_int 4503599627370496 * 2 powi (max (- 1074) (- 2 - 52))"
    by (rule round64_at) simp_all
  then show ?thesis by simp
qed

lemma round64_0_5: "round64 0.5 = 1 / 2"
proof -
  have "round64 0.5 = of_int 4503599627370496 * 2 powi (max (- 1074) (- 1 - 52))"
    by (rule round64_at) simp_all
  then show ?thesis by simp
qed

lemma round64_0_9: "round64 0.9 = 8106479329266893 / 2 ^ 53"
proof -
  have "round64 0.9 = of_int 8106479329266893 * 2 powi (max (- 1074) (- 1 - 52))"
    by (rule round64_at) simp_all
  then show ?thesis by simp
qed

lemmas literal_values = round64_0_1 round64_0_25 round64_0_5 round64_0_9

lemma demo_duration_value: "demo_duration = 4559894622712627 / 2 ^ 47"
proof -
  have "round64 32.4 = of_int 4559894622712627 * 2 powi (max (- 1074) (5 - 52))"
    by (rule round64_at) simp_all
  then show ?thesis unfolding demo_duration_def by simp
qed

lemma short_duration_value: "short_duration = 3752999689475413 / 2 ^ 50"
proof -
  have "round64 3.333333333333333 =
          of_int 7505999378950826 * 2 powi (max (- 1074) (1 - 52))"
    by (rule round64_at) simp_all
  then show ?thesis unfolding short_duration_def by simp
qed

subsection \<open>Decimal rendering and transient paths\<close>

lemma digit_char_inj: "a < 10 \<Longrightarrow> b < 10 \<Longrightarrow> digit_char a = digit_char b \<Longrightarrow> a = b"
proof -
  assume a: "a < 10" and b: "b < 10" and eq: "digit_char a = digit_char b"
  have "distinct ''0123456789''" by simp
  moreover have "a < length ''0123456789''" "b < length ''0123456789''" using a b by simp_all
  ultimately show "a = b" using eq unfolding digit_char_def by (simp only: nth_eq_iff_index_eq)
qed

lemma digit_char_in: "n < 10 \<Longrightarrow> digit_char n \<in> set ''0123456789''"
  unfolding digit_char_def by (rule nth_mem) simp

lemma digit_char_not_special:
  assumes "n < 10"
  shows "digit_char n \<noteq> CHR ''_''" and "digit_char n \<noteq> CHR ''-''"
  using digit_char_in[OF assms] by auto

lemma show_nat_nonempty: "show_nat n \<noteq> []"
  by (subst show_nat.simps) simp

lemma show_nat_digits: "c \<in> set (show_nat n) \<Longrightarrow> \<exists>k<10. c = digit_char k"
proof (induction n rule: show_nat.induct)
  case (1 n)
  show ?case
  proof (cases "n < 10")
    case True
    with "1.prems" show ?thesis by (subst (asm) show_nat.simps) auto
  next
    case False
    from "1.prems" False have "c \<in> set (show_nat (n div 10)) \<or> c = digit_char (n mod 10)"
      by (subst (asm) show_nat.simps) auto
    then show ?thesis
    proof
      assume "c \<in> set (show_nat (n div 10))"
      with "1.IH" False show ?thesis by simp
    next
      assume "c = digit_char (n mod 10)"
      moreover have "n mod 10 < 10" by simp
      ultimately show ?thesis by blast
    qed
  qed
qed

lemma underscore_notin_show_nat: "CHR ''_'' \<notin> set (show_nat n)"
proof
  assume "CHR ''_'' \<in> set (show_nat n)"
  then obtain k where "k < 10" "CHR ''_'' = digit_char k" using show_nat_digits by blast
  with digit_char_not_special(1)[of k] show False by simp
qed

lemma minus_notin_show_nat: "CHR ''-'' \<notin> set (show_nat n)"
proof
  assume "CHR ''-'' \<in> set (show_nat n)"
  then obtain k where "k < 10" "CHR ''-'' = digit_char k" using show_nat_digits by blast
  with digit_char_not_special(2)[of k] show False by simp
qed

lemma show_nat_inj: "show_nat m = show_nat n \<Longrightarrow> m = n"
proof (induction m arbitrary: n rule: show_nat.induct)
  case (1 m)
  show ?case
  proof (cases "m < 10")
    case m: True
    show ?thesis
    proof (cases "n < 10")
      case True
      with m "1.prems" have "digit_char m = digit_char n"
        by (simp add: show_nat.simps[of m] show_nat.simps[of n])
      with m True show ?thesis by (rule digit_char_inj)
    next
      case False
      with m "1.prems" have "[digit_char m] = show_nat (n div 10) @ [digit_char (n mod 10)]"
        by (simp add: show_nat.simps[of m] show_nat.simps[of n])
      then have "show_nat (n div 10) = []" by simp
      with show_nat_nonempty show ?thesis by blast
    qed
  next
    case m: False
    show ?thesis
    proof (cases "n < 10")
      case True
      with m "1.prems" have "show_nat (m div 10) @ [digit_char (m mod 10)] = [digit_char n]"
        by (simp add: show_nat.simps[of m] show_nat.simps[of n])
      then have "show_nat (m div 10) = []" by simp
      with show_nat_nonempty show ?thesis by blast
    next
      case False
      with m "1.prems" have
        "show_nat (m div 10) @ [digit_char (m mod 10)] = show_nat (n div 10) @ [digit_char (n mod 10)]"
        by (simp add: show_nat.simps[of m] show_nat.simps[of n])
      then have a: "show_nat (m div 10) = show_nat (n div 10)"
        and b: "digit_char (m mod 10) = digit_char (n mod 10)" by simp_all
      from "1.IH"[OF m a] have "m div 10 = n div 10" .
      moreover from b have "m mod 10 = n mod 10" by (intro digit_char_inj) simp_all
      ultimately show ?thesis by (metis div_mult_mod_eq)
    qed
  qed
qed

lemma number_string_safe: "x < 2 ^ 53 \<Longrightarrow> number_string x = show_nat x"
  by (simp add: number_string_def)

lemma show_int_safe:
  assumes "isSafeInteger i"
  shows "show_int i = (if i < 0 then CHR ''-'' # show_nat (nat (- i)) else show_nat (nat i))"
proof -
  have "nat (- i) < nat (2 ^ 53)" and "nat i < nat (2 ^ 53)"
    using assms by (simp_all add: isSafeInteger_def)
  then have "nat (- i) < 2 ^ 53" and "nat i < 2 ^ 53" by simp_all
  then show ?thesis by (simp add: show_int_def number_string_safe)
qed

lemma show_int_inj:
  assumes si: "isSafeInteger i" and sj: "isSafeInteger j" and eq: "show_int i = show_int j"
  shows "i = j"
proof -
  note d = show_int_safe[OF si] show_int_safe[OF sj]
  have hd_nonneg: "\<And>k. hd (show_nat k) \<noteq> CHR ''-''"
    using minus_notin_show_nat show_nat_nonempty by (metis hd_in_set)
  show "i = j"
  proof (cases "i < 0")
    case i: True
    show ?thesis
    proof (cases "j < 0")
      case True
      with i eq have "show_nat (nat (- i)) = show_nat (nat (- j))" by (simp add: d)
      then have "nat (- i) = nat (- j)" by (rule show_nat_inj)
      with i True show ?thesis by simp
    next
      case False
      with i eq have "CHR ''-'' # show_nat (nat (- i)) = show_nat (nat j)" by (simp add: d)
      then have "hd (show_nat (nat j)) = CHR ''-''" by (metis list.sel(1))
      with hd_nonneg show ?thesis by blast
    qed
  next
    case i: False
    show ?thesis
    proof (cases "j < 0")
      case True
      with i eq have "show_nat (nat i) = CHR ''-'' # show_nat (nat (- j))" by (simp add: d)
      then have "hd (show_nat (nat i)) = CHR ''-''" by (metis list.sel(1))
      with hd_nonneg show ?thesis by blast
    next
      case False
      with i eq have "show_nat (nat i) = show_nat (nat j)" by (simp add: d)
      then have "nat i = nat j" by (rule show_nat_inj)
      with i False show ?thesis by simp
    qed
  qed
qed

lemma framePathOf_inj:
  assumes "isSafeInteger s" and "isSafeInteger t"
      and "framePathOf dir vid s = framePathOf dir vid t"
  shows "s = t"
  using assms(1,2)
  by (rule show_int_inj)
     (use assms(3) in \<open>simp add: framePathOf_def path_join_def frameFilename_def\<close>)

lemma frame_not_video: "framePathOf dir vid t \<noteq> videoPathOf dir vid'"
  by (simp add: framePathOf_def videoPathOf_def path_join_def frameFilename_def)

lemma frame_not_audio: "framePathOf dir vid t \<noteq> audioPathOf dir vid'"
  by (simp add: framePathOf_def audioPathOf_def path_join_def frameFilename_def)

lemma audio_not_video: "audioPathOf dir vid \<noteq> videoPathOf dir vid'"
  by (simp add: audioPathOf_def videoPathOf_def path_join_def)

lemma videoPathOf_inj:
  assumes "a < 2 ^ 53" and "b < 2 ^ 53" and "videoPathOf dir a = videoPathOf dir b"
  shows "a = b"
  by (rule show_nat_inj)
     (use assms in \<open>simp add: videoPathOf_def path_join_def number_string_safe\<close>)

lemma audioPathOf_inj:
  assumes "a < 2 ^ 53" and "b < 2 ^ 53" and "audioPathOf dir a = audioPathOf dir b"
  shows "a = b"
  by (rule show_nat_inj)
     (use assms in \<open>simp add: audioPathOf_def path_join_def number_string_safe\<close>)

lemma split_at_first:
  assumes "c \<notin> set xs" and "c \<notin> set xs'" and eq: "xs @ c # ys = xs' @ c # ys'"
  shows "xs = xs'"
proof -
  have "takeWhile (\<lambda>x. x \<noteq> c) (xs @ c # ys) = xs"
    using assms(1) by (subst takeWhile_append2) auto
  moreover have "takeWhile (\<lambda>x. x \<noteq> c) (xs' @ c # ys') = xs'"
    using assms(2) by (subst takeWhile_append2) auto
  ultimately show ?thesis using eq by simp
qed

lemma framePathOf_unfold:
  "framePathOf dir a s =
     (dir @ ''/frame_'') @ number_string a @ CHR ''_'' # (show_int s @ ''.jpg'')"
  by (simp add: framePathOf_def path_join_def frameFilename_def)

lemma framePathOf_id_inj:
  assumes a: "a < 2 ^ 53" and b: "b < 2 ^ 53"
      and eq: "framePathOf dir a s = framePathOf dir b t"
  shows "a = b"
proof -
  from eq have "show_nat a @ CHR ''_'' # (show_int s @ ''.jpg'')
           = show_nat b @ CHR ''_'' # (show_int t @ ''.jpg'')"
    by (simp only: framePathOf_unfold same_append_eq number_string_safe[OF a]
        number_string_safe[OF b])
  then have "show_nat a = show_nat b"
    by (rule split_at_first[OF underscore_notin_show_nat underscore_notin_show_nat])
  then show "a = b" by (rule show_nat_inj)
qed

subsection \<open>The sampler\<close>

lemma set_add_all_strict:
  "sorted (acc @ xs) \<Longrightarrow> distinct acc \<Longrightarrow> sorted_wrt (<) (set_add_all acc xs)"
proof (induction xs arbitrary: acc)
  case Nil
  then show ?case by (simp add: strict_sorted_iff)
next
  case (Cons x xs)
  show ?case
  proof (cases "x \<in> set acc")
    case True
    from Cons.prems(1) have "sorted (acc @ xs)"
      by (auto simp: sorted_append)
    with Cons.IH Cons.prems(2) True show ?thesis by simp
  next
    case False
    from Cons.prems(1) have "sorted ((acc @ [x]) @ xs)" by simp
    moreover from False Cons.prems(2) have "distinct (acc @ [x])" by simp
    ultimately have "sorted_wrt (<) (set_add_all (acc @ [x]) xs)" by (rule Cons.IH)
    with False show ?thesis by simp
  qed
qed

lemma set_set_add_all: "set (set_add_all acc xs) = set acc \<union> set xs"
  by (induction xs arbitrary: acc) auto

lemma length_set_add_all: "length (set_add_all acc xs) \<le> length acc + length xs"
proof (induction xs arbitrary: acc)
  case Nil
  then show ?case by simp
next
  case (Cons x xs)
  have "length (set_add_all acc xs) \<le> length acc + length xs"
    and "length (set_add_all (acc @ [x]) xs) \<le> length (acc @ [x]) + length xs"
    by (rule Cons.IH)+
  then show ?case by auto
qed

lemma literals_ordered:
  "0 \<le> round64 0.1" "round64 0.1 \<le> round64 0.25" "round64 0.25 \<le> round64 0.5"
  "round64 0.5 \<le> round64 0.9" "round64 0.9 \<le> 9019 / 10000"
proof -
  show "0 \<le> round64 0.1" by (rule round64_nonneg) simp
  show "round64 0.1 \<le> round64 0.25" by (rule round64_mono) simp_all
  show "round64 0.25 \<le> round64 0.5" by (rule round64_mono) simp_all
  show "round64 0.5 \<le> round64 0.9" by (rule round64_mono) simp_all
  have "round64 0.9 \<le> 0.9 * (1001 / 1000) + 1 / 1000" by (rule round64_upper) simp
  then show "round64 0.9 \<le> 9019 / 10000" by simp
qed

lemma products_ordered:
  assumes "0 < d"
  shows "0 \<le> dmul d (round64 0.1)"
    and "dmul d (round64 0.1) \<le> dmul d (round64 0.25)"
    and "dmul d (round64 0.25) \<le> dmul d (round64 0.5)"
    and "dmul d (round64 0.5) \<le> dmul d (round64 0.9)"
proof -
  note l = literals_ordered
  have nn: "0 \<le> d * round64 0.1" using assms l(1) by simp
  show "0 \<le> dmul d (round64 0.1)" unfolding dmul_def using nn by (rule round64_nonneg)
  show "dmul d (round64 0.1) \<le> dmul d (round64 0.25)"
    unfolding dmul_def using nn assms l(2) by (intro round64_mono mult_left_mono) simp_all
  have nn2: "0 \<le> d * round64 0.25" using assms l(1,2) by simp
  show "dmul d (round64 0.25) \<le> dmul d (round64 0.5)"
    unfolding dmul_def using nn2 assms l(3) by (intro round64_mono mult_left_mono) simp_all
  have nn3: "0 \<le> d * round64 0.5" using assms l(1,2,3) by simp
  show "dmul d (round64 0.5) \<le> dmul d (round64 0.9)"
    unfolding dmul_def using nn3 assms l(4) by (intro round64_mono mult_left_mono) simp_all
qed

lemma last_product_below:
  assumes "0 < d"
  shows "real_of_int \<lfloor>dmul d (round64 0.9)\<rfloor> < d"
proof -
  let ?k = "round64 0.9"
  note l = literals_ordered
  have k0: "0 \<le> ?k" using l by linarith
  have x0: "0 \<le> d * ?k" using assms k0 by simp
  have bound: "dmul d ?k \<le> d * (903 / 1000) + 1 / 1000"
  proof (cases "d * ?k = 0")
    case True
    then show ?thesis using assms by (simp add: dmul_def round64_def)
  next
    case False
    have "0 < d * ?k" using x0 False by (auto simp only: less_le)
    then have "round64 (d * ?k) \<le> d * ?k * (1001 / 1000) + 1 / 1000" by (rule round64_upper)
    moreover have "d * ?k \<le> d * (9019 / 10000)"
      using assms l(5) by (intro mult_left_mono) simp_all
    then have "d * ?k * (1001 / 1000) \<le> d * (9019 / 10000) * (1001 / 1000)"
      by (rule mult_right_mono) simp
    moreover have "d * (9019 / 10000) * (1001 / 1000) \<le> d * (903 / 1000)"
      using assms by simp
    ultimately show ?thesis unfolding dmul_def by linarith
  qed
  show ?thesis
  proof (cases "1 \<le> d")
    case True
    with bound have "dmul d ?k < d" by simp
    then show ?thesis by linarith
  next
    case False
    with bound assms have "dmul d ?k < 1" by simp
    then have "\<lfloor>dmul d ?k\<rfloor> \<le> 0" by linarith
    with assms show ?thesis by linarith
  qed
qed

lemma candidates_sorted: "0 < d \<Longrightarrow> sorted (map floor (candidates d))"
  using products_ordered[of d] by (auto simp: candidates_def intro!: floor_mono)

lemma candidates_below:
  assumes "0 < d" and "c \<in> set (candidates d)"
  shows "real_of_int \<lfloor>c\<rfloor> < d"
proof -
  have "c \<le> dmul d (round64 0.9)"
    using products_ordered[OF assms(1)] assms(2) by (auto simp: candidates_def)
  then have "\<lfloor>c\<rfloor> \<le> \<lfloor>dmul d (round64 0.9)\<rfloor>" by (rule floor_mono)
  with last_product_below[OF assms(1)] show ?thesis by linarith
qed

text \<open>
  Claim C1. For every duration \<open>d > 0\<close> and no manual override, the timestamps are the
  candidates \<open>0, min(2, 0.10 d), 0.25 d, 0.50 d, 0.90 d\<close>, each product computed on doubles,
  floored, deduplicated, filtered to those strictly below \<open>d\<close> and cut to five; the result is
  strictly ascending, free of duplicates, has between one and five elements, and each element
  is strictly below \<open>d\<close>.
\<close>

theorem sampler_default:
  assumes "0 < d"
  shows "sampleTimestamps d None =
           take 5 (filter (\<lambda>t. real_of_int t < d)
             (dedupe (map floor
                [0, min 2 (dmul d (round64 0.10)), dmul d (round64 0.25),
                 dmul d (round64 0.50), dmul d (round64 0.90)])))
         \<and> sorted_wrt (<) (sampleTimestamps d None)
         \<and> distinct (sampleTimestamps d None)
         \<and> 1 \<le> length (sampleTimestamps d None)
         \<and> length (sampleTimestamps d None) \<le> 5
         \<and> (\<forall>t \<in> set (sampleTimestamps d None). real_of_int t < d)"
proof -
  let ?fl = "map floor (candidates d)"
  let ?dd = "dedupe ?fl"
  have eq: "sampleTimestamps d None = take 5 (filter (\<lambda>t. real_of_int t < d) ?dd)"
    by (simp add: sampleTimestamps_def)
  have strict: "sorted_wrt (<) ?dd"
    unfolding dedupe_def using candidates_sorted[OF assms]
    by (intro set_add_all_strict) simp_all
  have all_below: "\<forall>t \<in> set ?dd. real_of_int t < d"
    using candidates_below[OF assms] by (auto simp: dedupe_def set_set_add_all)
  then have keep: "filter (\<lambda>t. real_of_int t < d) ?dd = ?dd"
    by simp
  have "0 \<in> set ?dd" by (simp add: dedupe_def set_set_add_all candidates_def)
  then have ne: "1 \<le> length ?dd" by (cases ?dd) auto
  have le5: "length ?dd \<le> 5"
    using length_set_add_all[of "[]" ?fl] by (simp add: dedupe_def candidates_def)
  have s: "sorted_wrt (<) (sampleTimestamps d None)"
    unfolding eq keep using strict by (rule sorted_wrt_take)
  have 1: "sampleTimestamps d None =
           take 5 (filter (\<lambda>t. real_of_int t < d)
             (dedupe (map floor
                [0, min 2 (dmul d (round64 0.10)), dmul d (round64 0.25),
                 dmul d (round64 0.50), dmul d (round64 0.90)])))"
    by (simp add: sampleTimestamps_def candidates_def)
  have 5: "\<forall>t \<in> set (sampleTimestamps d None). real_of_int t < d"
    unfolding eq keep using all_below by (auto dest: in_set_takeD)
  from s have "distinct (sampleTimestamps d None)" by (simp add: strict_sorted_iff)
  moreover have "1 \<le> length (sampleTimestamps d None)" "length (sampleTimestamps d None) \<le> 5"
    unfolding eq keep using ne le5 by simp_all
  ultimately show ?thesis using 1 s 5 by blast
qed


text \<open>The products of the two example durations.\<close>

lemma demo_product_10: "dmul (4559894622712627 / 2 ^ 47) (3602879701896397 / 2 ^ 55) = 1823957849085051 / 2 ^ 49"
proof -
  have "round64 (4559894622712627 / 2 ^ 47 * (3602879701896397 / 2 ^ 55)) = of_int 7295831396340204 * 2 powi (max (- 1074) (1 - 52))"
    by (rule round64_at) simp_all
  then show ?thesis unfolding dmul_def by simp
qed

lemma demo_product_25: "dmul (4559894622712627 / 2 ^ 47) (1 / 4) = 4559894622712627 / 2 ^ 49"
proof -
  have "round64 (4559894622712627 / 2 ^ 47 * (1 / 4)) = of_int 4559894622712627 * 2 powi (max (- 1074) (3 - 52))"
    by (rule round64_at) simp_all
  then show ?thesis unfolding dmul_def by simp
qed

lemma demo_product_50: "dmul (4559894622712627 / 2 ^ 47) (1 / 2) = 4559894622712627 / 2 ^ 48"
proof -
  have "round64 (4559894622712627 / 2 ^ 47 * (1 / 2)) = of_int 4559894622712627 * 2 powi (max (- 1074) (4 - 52))"
    by (rule round64_at) simp_all
  then show ?thesis unfolding dmul_def by simp
qed

lemma demo_product_90: "dmul (4559894622712627 / 2 ^ 47) (8106479329266893 / 2 ^ 53) = 8207810320882729 / 2 ^ 48"
proof -
  have "round64 (4559894622712627 / 2 ^ 47 * (8106479329266893 / 2 ^ 53)) = of_int 8207810320882729 * 2 powi (max (- 1074) (4 - 52))"
    by (rule round64_at) simp_all
  then show ?thesis unfolding dmul_def by simp
qed

lemma short_product_10: "dmul (3752999689475413 / 2 ^ 50) (3602879701896397 / 2 ^ 55) = 6004799503160661 / 2 ^ 54"
proof -
  have "round64 (3752999689475413 / 2 ^ 50 * (3602879701896397 / 2 ^ 55)) = of_int 6004799503160661 * 2 powi (max (- 1074) (- 2 - 52))"
    by (rule round64_at) simp_all
  then show ?thesis unfolding dmul_def by simp
qed

lemma short_product_25: "dmul (3752999689475413 / 2 ^ 50) (1 / 4) = 3752999689475413 / 2 ^ 52"
proof -
  have "round64 (3752999689475413 / 2 ^ 50 * (1 / 4)) = of_int 7505999378950826 * 2 powi (max (- 1074) (- 1 - 52))"
    by (rule round64_at) simp_all
  then show ?thesis unfolding dmul_def by simp
qed

lemma short_product_50: "dmul (3752999689475413 / 2 ^ 50) (1 / 2) = 3752999689475413 / 2 ^ 51"
proof -
  have "round64 (3752999689475413 / 2 ^ 50 * (1 / 2)) = of_int 7505999378950826 * 2 powi (max (- 1074) (0 - 52))"
    by (rule round64_at) simp_all
  then show ?thesis unfolding dmul_def by simp
qed

lemma short_product_90: "dmul (3752999689475413 / 2 ^ 50) (8106479329266893 / 2 ^ 53) = 3"
proof -
  have "round64 (3752999689475413 / 2 ^ 50 * (8106479329266893 / 2 ^ 53)) = of_int 6755399441055744 * 2 powi (max (- 1074) (1 - 52))"
    by (rule round64_at) simp_all
  then show ?thesis unfolding dmul_def by simp
qed

lemmas demo_products = demo_product_10 demo_product_25 demo_product_50 demo_product_90

lemmas short_products = short_product_10 short_product_25 short_product_50 short_product_90

lemma demo_floors:
  "\<lfloor>min 2 (1823957849085051 / 2 ^ 49 :: real)\<rfloor> = 2"
  "\<lfloor>4559894622712627 / 2 ^ 49 :: real\<rfloor> = 8"
  "\<lfloor>4559894622712627 / 2 ^ 48 :: real\<rfloor> = 16"
  "\<lfloor>8207810320882729 / 2 ^ 48 :: real\<rfloor> = 29"
  by simp_all

lemma short_floors:
  "\<lfloor>min 2 (6004799503160661 / 2 ^ 54 :: real)\<rfloor> = 0"
  "\<lfloor>3752999689475413 / 2 ^ 52 :: real\<rfloor> = 0"
  "\<lfloor>3752999689475413 / 2 ^ 51 :: real\<rfloor> = 1"
  by simp_all

lemma demo_candidates: "map floor (candidates demo_duration) = [0, 2, 8, 16, 29]"
  unfolding candidates_def demo_duration_value literal_values demo_products list.map demo_floors
  by simp

lemma short_candidates: "map floor (candidates short_duration) = [0, 0, 0, 1, 3]"
  unfolding candidates_def short_duration_value literal_values short_products list.map
    short_floors
  by simp

lemma demo_dedupe: "dedupe [0, 2, 8, 16, 29 :: int] = [0, 2, 8, 16, 29]"
  by (simp add: dedupe_def)

lemma short_dedupe: "dedupe [0, 0, 0, 1, 3 :: int] = [0, 1, 3]"
  by (simp add: dedupe_def)

lemma sample_demo: "sampleTimestamps demo_duration None = [0, 2, 8, 16, 29]"
proof -
  have "sampleTimestamps demo_duration None =
          take 5 (filter (\<lambda>t. real_of_int t < demo_duration) [0, 2, 8, 16, 29])"
    unfolding sampleTimestamps_def demo_candidates demo_dedupe by simp
  then show ?thesis unfolding demo_duration_value by simp
qed

lemma sample_short: "sampleTimestamps short_duration None = [0, 1, 3]"
proof -
  have "sampleTimestamps short_duration None =
          take 5 (filter (\<lambda>t. real_of_int t < short_duration) [0, 1, 3])"
    unfolding sampleTimestamps_def short_candidates short_dedupe by simp
  then show ?thesis unfolding short_duration_value by simp
qed

theorem sampler_default_witness:
  "0 < demo_duration \<and> sampleTimestamps demo_duration None = [0, 2, 8, 16, 29]
   \<and> 0 < short_duration \<and> sampleTimestamps short_duration None = [0, 1, 3]"
proof -
  have a: "0 < demo_duration" unfolding demo_duration_value by simp
  have b: "0 < short_duration" unfolding short_duration_value by simp
  note t = sampler_default[OF a] sampler_default[OF b]
  from t a b show ?thesis unfolding sample_demo sample_short by blast
qed

text \<open>
  With exact products the second list would be \<open>[0, 1, 2]\<close>: nine tenths of
  \<open>3.333333333333333\<close> lie just below 3, and the product of the doubles rounds up to 3.
\<close>

lemma exact_product_below_3: "short_duration * (9 / 10) < 3"
  unfolding short_duration_value by simp

lemma durationOf_demo: "durationOf (Some demo_duration) = demo_duration"
  by (simp add: durationOf_def demo_duration_value)

lemma sample_32_4: "sampleTimestamps (durationOf (Some demo_duration)) None = [0, 2, 8, 16, 29]"
  unfolding durationOf_demo by (rule sample_demo)

subsection \<open>The stages of the pipeline\<close>

lemma write_out_other: "p \<noteq> q \<Longrightarrow> write_out q out files p = files p"
  by (simp add: write_out_def split: option.splits)

lemma unlink_if_exists_eq: "unlink_if_exists p files = files(p := None)"
  by (auto simp: unlink_if_exists_def)

lemma captureFrame_spec:
  assumes "fp \<noteq> vp"
  shows "captureFrame w vp ts fp files =
           (captureResolves w (files vp) ts, write_out fp (captureOutput w (files vp) ts) files)"
proof -
  obtain ok1 out1 where r1: "ffmpeg_frame w SeekInput (files vp) ts = (ok1, out1)"
    by (cases "ffmpeg_frame w SeekInput (files vp) ts")
  obtain ok2 out2 where r2: "ffmpeg_frame w SeekOutput (files vp) ts = (ok2, out2)"
    by (cases "ffmpeg_frame w SeekOutput (files vp) ts")
  have vp: "write_out fp out1 files vp = files vp"
    using assms by (simp add: write_out_other)
  show ?thesis
  proof (cases ok1)
    case True
    with r1 show ?thesis
      by (simp add: captureFrame_def captureResolves_def captureOutput_def)
  next
    case False
    with r1 r2 vp show ?thesis
      by (cases out2; cases out1)
         (simp_all add: captureFrame_def captureResolves_def captureOutput_def write_out_def)
  qed
qed

lemma downloadDirect_other: "p \<noteq> dest \<Longrightarrow> snd (downloadDirect w url dest files) p = files p"
  by (simp add: downloadDirect_def Let_def split: sum.splits prod.splits http_body.splits)

lemma downloadWithYtDlp_other:
  "p \<noteq> dest \<Longrightarrow> snd (downloadWithYtDlp w url dest files) p = files p"
  by (simp add: downloadWithYtDlp_def write_out_other Let_def split: prod.splits)

lemma downloadStage_other:
  assumes "p \<noteq> dest"
  shows "snd (downloadStage w url dest files) p = files p"
proof (cases "str_includes url ''tiktok.com''")
  case False
  then show ?thesis using assms by (simp add: downloadStage_def downloadDirect_other)
next
  case True
  show ?thesis
  proof (cases "resolveTikTokUrl w url")
    case (Inl e)
    with True assms show ?thesis by (simp add: downloadStage_def downloadWithYtDlp_other)
  next
    case (Inr u)
    obtain r files' where dd: "downloadDirect w u dest files = (r, files')"
      by (cases "downloadDirect w u dest files")
    then have f': "files' p = files p"
      using downloadDirect_other[OF assms, of w u files] by simp
    show ?thesis
    proof (cases r)
      case (Inl e)
      with True Inr dd f' assms show ?thesis
        by (simp add: downloadStage_def downloadWithYtDlp_other)
    next
      case (Inr x)
      with True \<open>resolveTikTokUrl w url = Inr u\<close> dd f' show ?thesis
        by (simp add: downloadStage_def)
    qed
  qed
qed

lemma eval_paths:
  "videoPathOf ''/tmp'' 1700000000000 = ''/tmp/socially_video_1700000000000.mp4''"
  "audioPathOf ''/tmp'' 1700000000000 = ''/tmp/audio_1700000000000.mp3''"
  by (simp_all add: videoPathOf_def audioPathOf_def path_join_def number_string_def
      show_nat.simps digit_char_def)

lemma demo_world_fields:
  "now demo_world = 1700000000000"
  "tmpdir demo_world = ''/tmp''"
  "http_get demo_world = (\<lambda>url. Response 200 (Complete video_bytes))"
  "tikwm demo_world = (\<lambda>url. ApiRejected)"
  "localBin_exists demo_world = False"
  "which_ytdlp demo_world = None"
  "ytdlp_exec demo_world = (\<lambda>url. (False, None))"
  "ffprobe demo_world = (\<lambda>v. Metadata (Some demo_duration))"
  "ffmpeg_frame demo_world = (\<lambda>mode v ts. if ts = 2 \<or> ts = 16 then (False, None) else (True, Some [1]))"
  "ffmpeg_audio demo_world = (\<lambda>v. (True, Some [2]))"
  "toBase64 demo_world = (\<lambda>b. ''AQ=='')"
  by (simp_all add: demo_world_def)

text \<open>
  The loop, when no frame file is in the way and the timestamps are printed digit by digit:
  the frames are those of the timestamps whose capture yields one, and the files left are
  those of the captures that were rejected.
\<close>

lemma frameLoop_spec:
  assumes nv: "\<forall>t. framePathOf dir vid t \<noteq> vp"
      and safe: "\<forall>t \<in> set tss. isSafeInteger t"
      and inv: "\<forall>t \<in> set tss. files (framePathOf dir vid t) \<noteq> None
                  \<longrightarrow> \<not> captureResolves w (files vp) t"
  shows "frameLoop w dir vid vp tss acc files =
           (acc @ successfulFrames w (files vp) tss, leftovers w dir vid (files vp) tss files)"
  using safe inv
proof (induction tss arbitrary: acc files)
  case Nil
  show ?case by (simp add: successfulFrames_def map_filter_simps)
next
  case (Cons ts rest)
  let ?fp = "framePathOf dir vid ts"
  let ?v = "files vp"
  let ?R = "captureResolves w ?v ts"
  let ?O = "captureOutput w ?v ts"
  let ?files1 = "write_out ?fp ?O files"
  have fpvp: "?fp \<noteq> vp" using nv by simp
  have cap: "captureFrame w vp ts (path_join dir (frameFilename vid ts)) files = (?R, ?files1)"
    using captureFrame_spec[OF fpvp] by (simp add: framePathOf_def)
  have v1: "?files1 vp = ?v" using fpvp by (simp add: write_out_other)
  have safe': "\<forall>t \<in> set rest. isSafeInteger t" using Cons.prems(1) by simp
  have sts: "isSafeInteger ts" using Cons.prems(1) by simp
  show ?case
  proof (cases ?R)
    case True
    with Cons.prems(2) have absent: "files ?fp = None" by auto
    have inv': "\<forall>t \<in> set rest. files (framePathOf dir vid t) \<noteq> None
                  \<longrightarrow> \<not> captureResolves w (files vp) t"
      using Cons.prems(2) by simp
    show ?thesis
    proof (cases ?O)
      case None
      then have f1: "?files1 = files" by (simp add: write_out_def)
      have "frameLoop w dir vid vp (ts # rest) acc files = frameLoop w dir vid vp rest acc files"
        using cap True None absent f1 by (simp add: framePathOf_def)
      also have "\<dots> = (acc @ successfulFrames w ?v rest, leftovers w dir vid ?v rest files)"
        using safe' inv' by (rule Cons.IH)
      finally show ?thesis
        using True None by (simp add: successfulFrames_def map_filter_simps frameAt_def)
    next
      case (Some b)
      let ?fr = "\<lparr>timestamp = ts, base64 = toBase64 w b, mimeType = ''image/jpeg''\<rparr>"
      have f1: "?files1 ?fp = Some b" using Some by (simp add: write_out_def)
      have del: "?files1(?fp := None) = files"
        using Some absent by (auto simp: write_out_def)
      have "frameLoop w dir vid vp (ts # rest) acc files
              = frameLoop w dir vid vp rest (acc @ [?fr]) (?files1(?fp := None))"
        using cap True f1 by (simp add: framePathOf_def Let_def)
      also have "\<dots> = frameLoop w dir vid vp rest (acc @ [?fr]) files"
        by (simp only: del)
      also have "\<dots> = ((acc @ [?fr]) @ successfulFrames w ?v rest,
                        leftovers w dir vid ?v rest files)"
        using safe' inv' by (rule Cons.IH)
      finally show ?thesis
        using True Some by (simp add: successfulFrames_def map_filter_simps frameAt_def)
    qed
  next
    case False
    have inv1: "\<forall>t \<in> set rest. ?files1 (framePathOf dir vid t) \<noteq> None
                  \<longrightarrow> \<not> captureResolves w (?files1 vp) t"
    proof (intro ballI impI)
      fix t assume t: "t \<in> set rest" and ex: "?files1 (framePathOf dir vid t) \<noteq> None"
      have st: "isSafeInteger t" using safe' t by simp
      show "\<not> captureResolves w (?files1 vp) t"
      proof (cases "framePathOf dir vid t = ?fp")
        case True
        with st sts have "t = ts" by (rule framePathOf_inj)
        with False v1 show ?thesis by simp
      next
        case neq: False
        with ex have "files (framePathOf dir vid t) \<noteq> None" by (simp add: write_out_other)
        with Cons.prems(2) t v1 show ?thesis by simp
      qed
    qed
    have "frameLoop w dir vid vp (ts # rest) acc files = frameLoop w dir vid vp rest acc ?files1"
      using cap False by (simp add: framePathOf_def)
    also have "\<dots> = (acc @ successfulFrames w (?files1 vp) rest,
                      leftovers w dir vid (?files1 vp) rest ?files1)"
      using safe' inv1 by (rule Cons.IH)
    finally show ?thesis
      using False v1 by (simp add: successfulFrames_def map_filter_simps frameAt_def)
  qed
qed

lemma leftovers_other:
  "(\<forall>t. p \<noteq> framePathOf dir vid t) \<Longrightarrow> leftovers w dir vid v tss files p = files p"
  by (induction tss arbitrary: files) (simp_all add: write_out_other)

lemma leftovers_none:
  "(\<forall>t \<in> set tss. \<not> captureResolves w v t \<longrightarrow> captureOutput w v t = None)
     \<Longrightarrow> leftovers w dir vid v tss files = files"
  by (induction tss arbitrary: files) (simp_all add: write_out_def)

text \<open>The loop touches frame paths only.\<close>

lemma frameLoop_other:
  assumes "\<forall>t. p \<noteq> framePathOf dir vid t"
  shows "snd (frameLoop w dir vid vp tss acc files) p = files p"
proof (induction tss arbitrary: acc files)
  case Nil
  show ?case by simp
next
  case (Cons ts rest)
  let ?fp = "path_join dir (frameFilename vid ts)"
  have pfp: "p \<noteq> ?fp" using assms by (simp add: framePathOf_def)
  obtain r files1 where cap: "captureFrame w vp ts ?fp files = (r, files1)"
    by (cases "captureFrame w vp ts ?fp files")
  have f1: "files1 p = files p"
  proof -
    have "snd (captureFrame w vp ts ?fp files) p = files p"
      using pfp by (simp add: captureFrame_def Let_def write_out_other split: prod.splits)
    with cap show ?thesis by simp
  qed
  show ?case
    using cap f1 pfp Cons.IH
    by (simp add: Let_def split: option.splits)
qed

text \<open>
  Whatever the directory and the timestamps: the loop appends to the frames collected so
  far, each frame it appends carries a timestamp of the list, in the order of the list.
\<close>

lemma frameLoop_timestamps:
  "\<exists>xs. fst (frameLoop w dir vid vp tss acc files) = acc @ xs
        \<and> subseq (map timestamp xs) tss"
proof (induction tss arbitrary: acc files)
  case Nil
  show ?case by simp
next
  case (Cons ts rest)
  let ?fp = "path_join dir (frameFilename vid ts)"
  obtain r files1 where cap: "captureFrame w vp ts ?fp files = (r, files1)"
    by (cases "captureFrame w vp ts ?fp files")
  show ?case
  proof (cases "r \<and> files1 ?fp \<noteq> None")
    case True
    then obtain b where b: "files1 ?fp = Some b" by auto
    let ?fr = "\<lparr>timestamp = ts, base64 = toBase64 w b, mimeType = ''image/jpeg''\<rparr>"
    have step: "frameLoop w dir vid vp (ts # rest) acc files
                  = frameLoop w dir vid vp rest (acc @ [?fr]) (files1(?fp := None))"
      using cap True b by (simp add: Let_def)
    obtain xs where xs: "fst (frameLoop w dir vid vp rest (acc @ [?fr]) (files1(?fp := None)))
                           = (acc @ [?fr]) @ xs"
      and sub: "subseq (map timestamp xs) rest"
      using Cons.IH by blast
    have "fst (frameLoop w dir vid vp (ts # rest) acc files) = acc @ (?fr # xs)"
      using step xs by simp
    moreover have "subseq (map timestamp (?fr # xs)) (ts # rest)"
      using sub by simp
    ultimately show ?thesis by blast
  next
    case False
    have step: "frameLoop w dir vid vp (ts # rest) acc files
                  = frameLoop w dir vid vp rest acc files1"
      using cap False by (auto simp: Let_def split: option.splits)
    obtain xs where xs: "fst (frameLoop w dir vid vp rest acc files1) = acc @ xs"
      and sub: "subseq (map timestamp xs) rest"
      using Cons.IH by blast
    have "subseq (map timestamp xs) (ts # rest)" using sub by (rule list_emb_Cons)
    with step xs show ?thesis by auto
  qed
qed

text \<open>
  Whatever the directory: a timestamp of the list whose capture yields a frame has that frame
  among those the loop returns.
\<close>

lemma frameLoop_contains:
  assumes nv: "\<forall>t. framePathOf dir vid t \<noteq> vp"
      and t: "t \<in> set tss"
      and f: "frameAt w (files vp) t = Some f"
  shows "f \<in> set (fst (frameLoop w dir vid vp tss acc files))"
  using t f
proof (induction tss arbitrary: acc files)
  case Nil
  then show ?case by simp
next
  case (Cons ts rest)
  let ?fp = "framePathOf dir vid ts"
  let ?v = "files vp"
  let ?R = "captureResolves w ?v ts"
  let ?O = "captureOutput w ?v ts"
  let ?files1 = "write_out ?fp ?O files"
  have fpvp: "?fp \<noteq> vp" using nv by simp
  have cap: "captureFrame w vp ts (path_join dir (frameFilename vid ts)) files = (?R, ?files1)"
    using captureFrame_spec[OF fpvp] by (simp add: framePathOf_def)
  have v1: "?files1 vp = ?v" using fpvp by (simp add: write_out_other)
  have "\<exists>acc' files'. frameLoop w dir vid vp (ts # rest) acc files
                        = frameLoop w dir vid vp rest acc' files'
                      \<and> files' vp = ?v
                      \<and> (t = ts \<longrightarrow> f \<in> set acc')"
  proof (cases "?R \<and> ?files1 ?fp \<noteq> None")
    case True
    then obtain buf where buf: "?files1 ?fp = Some buf" by auto
    let ?fr = "\<lparr>timestamp = ts, base64 = toBase64 w buf, mimeType = ''image/jpeg''\<rparr>"
    have step: "frameLoop w dir vid vp (ts # rest) acc files
                  = frameLoop w dir vid vp rest (acc @ [?fr]) (?files1(?fp := None))"
      using cap True buf by (simp add: framePathOf_def Let_def)
    have v2: "(?files1(?fp := None)) vp = ?v" using v1 fpvp by simp
    have eqf: "f = ?fr" if "t = ts"
    proof -
      from that Cons.prems(2) obtain b where o: "?O = Some b"
        and fb: "f = \<lparr>timestamp = ts, base64 = toBase64 w b, mimeType = ''image/jpeg''\<rparr>"
        by (auto simp: frameAt_def split: if_splits)
      from o have "?files1 ?fp = Some b" by (simp add: write_out_def)
      with buf fb show ?thesis by simp
    qed
    have here: "t = ts \<longrightarrow> f \<in> set (acc @ [?fr])" using eqf by simp
    from step v2 here show ?thesis by blast
  next
    case False
    have step: "frameLoop w dir vid vp (ts # rest) acc files
                  = frameLoop w dir vid vp rest acc ?files1"
      using cap False by (auto simp: framePathOf_def Let_def split: option.splits)
    have "t \<noteq> ts"
    proof
      assume "t = ts"
      with Cons.prems(2) obtain b where "?R" and "?O = Some b"
        by (auto simp: frameAt_def split: if_splits)
      then have "?R \<and> ?files1 ?fp \<noteq> None" by (simp add: write_out_def)
      with False show False by simp
    qed
    with step v1 show ?thesis by blast
  qed
  then obtain acc' files' where
    step: "frameLoop w dir vid vp (ts # rest) acc files = frameLoop w dir vid vp rest acc' files'"
    and v': "files' vp = ?v"
    and here: "t = ts \<longrightarrow> f \<in> set acc'"
    by blast
  show ?case
  proof (cases "t = ts")
    case True
    obtain xs where "fst (frameLoop w dir vid vp rest acc' files') = acc' @ xs"
      using frameLoop_timestamps by blast
    with here True step show ?thesis by simp
  next
    case False
    with Cons.prems(1) have "t \<in> set rest" by simp
    moreover have "frameAt w (files' vp) t = Some f" using Cons.prems(2) v' by simp
    ultimately have "f \<in> set (fst (frameLoop w dir vid vp rest acc' files'))"
      by (rule Cons.IH)
    with step show ?thesis by simp
  qed
qed

lemma successfulFrames_nonempty:
  "successfulFrames w v tss \<noteq> [] \<Longrightarrow> \<exists>t \<in> set tss. \<exists>f. frameAt w v t = Some f"
  by (induction tss) (auto simp: successfulFrames_def map_filter_simps split: option.splits)

text \<open>What follows the loop, when the video file is still there.\<close>

lemma finishExtraction_spec:
  assumes v: "loopFiles (videoPathOf (tmpdir w) (now w)) = Some v"
  shows "finishExtraction w (frms, loopFiles) =
          (let files3 = write_out (audioPathOf (tmpdir w) (now w))
                          (snd (ffmpeg_audio w (Some v))) loopFiles
           in if frms = [] then (Inl NoFramesError, loopFiles)
              else if fst (ffmpeg_audio w (Some v)) then
                     (Inr \<lparr>frames = frms, audioPath = audioPathOf (tmpdir w) (now w)\<rparr>,
                      files3(videoPathOf (tmpdir w) (now w) := None))
                   else (Inl AudioExtractionError, files3))"
proof -
  obtain ok out where au: "ffmpeg_audio w (Some v) = (ok, out)"
    by (cases "ffmpeg_audio w (Some v)")
  show ?thesis
    using v au by (simp add: finishExtraction_def Let_def extractAudio_def unlink_if_exists_eq)
qed

lemma finishExtraction_Inr:
  assumes "finishExtraction w lr = (Inr r, files')"
  shows "files' (videoPathOf (tmpdir w) (now w)) = None"
  using assms
  by (auto simp: finishExtraction_def Let_def unlink_if_exists_eq
      split: if_splits prod.splits)

lemma finishExtraction_keeps_audio:
  assumes "files2 (audioPathOf (tmpdir w) (now w)) \<noteq> None"
  shows "snd (finishExtraction w (frms, files2)) (audioPathOf (tmpdir w) (now w)) \<noteq> None"
proof -
  let ?vp = "videoPathOf (tmpdir w) (now w)"
  let ?ap = "audioPathOf (tmpdir w) (now w)"
  obtain ok out where au: "ffmpeg_audio w (files2 ?vp) = (ok, out)"
    by (cases "ffmpeg_audio w (files2 ?vp)")
  have w2: "write_out ?ap out files2 ?ap \<noteq> None"
    using assms by (simp add: write_out_def split: option.splits)
  show ?thesis
    using assms au w2
    by (cases ok; cases "frms = []")
       (simp_all add: finishExtraction_def Let_def extractAudio_def unlink_if_exists_eq
         audio_not_video)
qed

lemma extractionStage_keeps_audio:
  assumes "files (audioPathOf (tmpdir w) (now w)) \<noteq> None"
  shows "snd (extractionStage w tss files) (audioPathOf (tmpdir w) (now w)) \<noteq> None"
proof -
  let ?vp = "videoPathOf (tmpdir w) (now w)"
  let ?ap = "audioPathOf (tmpdir w) (now w)"
  have nf: "\<forall>t. ?ap \<noteq> framePathOf (tmpdir w) (now w) t"
    using frame_not_audio[of "tmpdir w" "now w" _ "now w"] by metis
  obtain frms files2 where fl: "frameLoop w (tmpdir w) (now w) ?vp tss [] files = (frms, files2)"
    by (cases "frameLoop w (tmpdir w) (now w) ?vp tss [] files")
  have "snd (frameLoop w (tmpdir w) (now w) ?vp tss [] files) ?ap = files ?ap"
    using nf by (rule frameLoop_other)
  with fl assms have "files2 ?ap \<noteq> None" by simp
  then have "snd (finishExtraction w (frms, files2)) ?ap \<noteq> None"
    by (rule finishExtraction_keeps_audio)
  with fl show ?thesis by (simp add: extractionStage_def)
qed

text \<open>The ways out of the part of the \<open>try\<close> block that follows the download.\<close>

lemma processVideo_shape:
  "(\<exists>e. processVideo w m files = (Inl e, files))
   \<or> (\<exists>tss. processVideo w m files = extractionStage w tss files)"
proof (cases "files (videoPathOf (tmpdir w) (now w)) = None")
  case True
  then show ?thesis by (simp add: processVideo_def Let_def)
next
  case False
  then obtain v where present: "files (videoPathOf (tmpdir w) (now w)) = Some v" by auto
  show ?thesis
  proof (cases "ffprobe w (Some v)")
    case ProbeFailed
    with present show ?thesis by (simp add: processVideo_def Let_def)
  next
    case (Metadata d)
    with present have "processVideo w m files =
        extractionStage w (sampleTimestamps (durationOf d) m) files"
      by (simp add: processVideo_def Let_def)
    then show ?thesis by blast
  next
    case (MetadataText s)
    show ?thesis
    proof (cases "s = []")
      case True
      with present MetadataText have "processVideo w m files =
          extractionStage w (sampleTimestamps 30 m) files"
        by (simp add: processVideo_def Let_def)
      then show ?thesis by blast
    next
      case False
      with present MetadataText show ?thesis by (simp add: processVideo_def Let_def)
    qed
  qed
qed

lemma processVideo_Inr:
  assumes "processVideo w m files = (Inr r, files')"
  shows "files' (videoPathOf (tmpdir w) (now w)) = None"
proof -
  from processVideo_shape[of w m files] assms
  obtain tss where "extractionStage w tss files = (Inr r, files')" by auto
  then show ?thesis unfolding extractionStage_def by (rule finishExtraction_Inr)
qed

lemma processVideo_keeps_audio:
  assumes "files (audioPathOf (tmpdir w) (now w)) \<noteq> None"
  shows "snd (processVideo w m files) (audioPathOf (tmpdir w) (now w)) \<noteq> None"
proof -
  from processVideo_shape[of w m files] show ?thesis
  proof
    assume "\<exists>e. processVideo w m files = (Inl e, files)"
    with assms show ?thesis by auto
  next
    assume "\<exists>tss. processVideo w m files = extractionStage w tss files"
    then obtain tss where "processVideo w m files = extractionStage w tss files" ..
    moreover have "snd (extractionStage w tss files) (audioPathOf (tmpdir w) (now w)) \<noteq> None"
      using assms by (rule extractionStage_keeps_audio)
    ultimately show ?thesis by simp
  qed
qed

lemma tryBlock_after_probe:
  assumes dl: "downloadStage w url (videoPathOf (tmpdir w) (now w)) files0 = (Inr u, files1)"
      and v: "files1 (videoPathOf (tmpdir w) (now w)) = Some v"
      and pr: "ffprobe w (Some v) = Metadata d"
  shows "tryBlock w url m files0 =
           extractionStage w (sampleTimestamps (durationOf d) m) files1"
  using assms by (simp add: tryBlock_def processVideo_def Let_def)

lemma processVideo_spec:
  assumes v: "files (videoPathOf (tmpdir w) (now w)) = Some v"
      and pr: "ffprobe w (Some v) = Metadata d"
      and inv: "\<forall>t. files (framePathOf (tmpdir w) (now w) t) \<noteq> None
                  \<longrightarrow> \<not> captureResolves w (Some v) t"
      and safe: "\<forall>t \<in> set (sampleTimestamps (durationOf d) m). isSafeInteger t"
  shows "processVideo w m files =
          (let tss = sampleTimestamps (durationOf d) m;
               good = successfulFrames w (Some v) tss;
               files2 = leftovers w (tmpdir w) (now w) (Some v) tss files;
               files3 = write_out (audioPathOf (tmpdir w) (now w))
                          (snd (ffmpeg_audio w (Some v))) files2
           in if good = [] then (Inl NoFramesError, files2)
              else if fst (ffmpeg_audio w (Some v)) then
                     (Inr \<lparr>frames = good, audioPath = audioPathOf (tmpdir w) (now w)\<rparr>,
                      files3(videoPathOf (tmpdir w) (now w) := None))
                   else (Inl AudioExtractionError, files3))"
proof -
  let ?vp = "videoPathOf (tmpdir w) (now w)"
  let ?tss = "sampleTimestamps (durationOf d) m"
  let ?files2 = "leftovers w (tmpdir w) (now w) (Some v) ?tss files"
  have nv: "\<forall>t. framePathOf (tmpdir w) (now w) t \<noteq> ?vp"
    by (simp add: frame_not_video)
  have inv': "\<forall>t \<in> set ?tss. files (framePathOf (tmpdir w) (now w) t) \<noteq> None
                  \<longrightarrow> \<not> captureResolves w (files ?vp) t"
    using inv v by simp
  have loop: "frameLoop w (tmpdir w) (now w) ?vp ?tss [] files =
                ([] @ successfulFrames w (files ?vp) ?tss,
                 leftovers w (tmpdir w) (now w) (files ?vp) ?tss files)"
    using nv safe inv' by (rule frameLoop_spec)
  have v2: "?files2 ?vp = Some v"
    using v nv leftovers_other[of ?vp "tmpdir w" "now w" w "Some v" ?tss files] by metis
  have "processVideo w m files = extractionStage w ?tss files"
    using v pr by (simp add: processVideo_def Let_def)
  also have "\<dots> = finishExtraction w (successfulFrames w (Some v) ?tss, ?files2)"
    using loop v by (simp add: extractionStage_def)
  finally show ?thesis
    unfolding finishExtraction_spec[where loopFiles = "?files2", OF v2] by (simp add: Let_def)
qed

lemma extractFrames_spec:
  assumes dl: "downloadStage w url (videoPathOf (tmpdir w) (now w)) files0 = (Inr u, files1)"
      and v: "files1 (videoPathOf (tmpdir w) (now w)) = Some v"
      and pr: "ffprobe w (Some v) = Metadata d"
      and inv: "\<forall>t. files1 (framePathOf (tmpdir w) (now w) t) \<noteq> None
                  \<longrightarrow> \<not> captureResolves w (Some v) t"
      and safe: "\<forall>t \<in> set (sampleTimestamps (durationOf d) m). isSafeInteger t"
  shows "extractFrames w url m files0 =
          (let tss = sampleTimestamps (durationOf d) m;
               good = successfulFrames w (Some v) tss;
               files2 = leftovers w (tmpdir w) (now w) (Some v) tss files1;
               files3 = write_out (audioPathOf (tmpdir w) (now w))
                          (snd (ffmpeg_audio w (Some v))) files2
           in if good = [] then
                (Inl NoFramesError, files2(videoPathOf (tmpdir w) (now w) := None))
              else if fst (ffmpeg_audio w (Some v)) then
                     (Inr \<lparr>frames = good, audioPath = audioPathOf (tmpdir w) (now w)\<rparr>,
                      files3(videoPathOf (tmpdir w) (now w) := None))
                   else (Inl AudioExtractionError,
                         files3(videoPathOf (tmpdir w) (now w) := None)))"
  using dl processVideo_spec[OF v pr inv safe]
  by (simp add: extractFrames_def tryBlock_def Let_def unlink_if_exists_eq)


lemma extractFrames_video_gone:
  "snd (extractFrames w url m files0) (videoPathOf (tmpdir w) (now w)) = None"
proof -
  obtain r files' where tb: "tryBlock w url m files0 = (r, files')"
    by (cases "tryBlock w url m files0")
  show ?thesis
  proof (cases r)
    case (Inl e)
    with tb show ?thesis by (simp add: extractFrames_def unlink_if_exists_eq)
  next
    case (Inr res)
    with tb obtain files1 where "processVideo w m files1 = (Inr res, files')"
      by (auto simp: tryBlock_def split: prod.splits sum.splits)
    then have "files' (videoPathOf (tmpdir w) (now w)) = None" by (rule processVideo_Inr)
    with tb Inr show ?thesis by (simp add: extractFrames_def)
  qed
qed

lemma extractFrames_keeps_audio:
  assumes "files0 (audioPathOf (tmpdir w) (now w)) \<noteq> None"
  shows "snd (extractFrames w url m files0) (audioPathOf (tmpdir w) (now w)) \<noteq> None"
proof -
  let ?vp = "videoPathOf (tmpdir w) (now w)"
  let ?ap = "audioPathOf (tmpdir w) (now w)"
  obtain r1 files1 where dl: "downloadStage w url ?vp files0 = (r1, files1)"
    by (cases "downloadStage w url ?vp files0")
  have "snd (downloadStage w url ?vp files0) ?ap = files0 ?ap"
    by (rule downloadStage_other) (rule audio_not_video)
  with dl assms have f1: "files1 ?ap \<noteq> None" by simp
  show ?thesis
  proof (cases r1)
    case (Inl e)
    with dl f1 show ?thesis
      by (simp add: extractFrames_def tryBlock_def unlink_if_exists_eq audio_not_video)
  next
    case (Inr u)
    obtain r files' where pv: "processVideo w m files1 = (r, files')"
      by (cases "processVideo w m files1")
    have "snd (processVideo w m files1) ?ap \<noteq> None"
      using f1 by (rule processVideo_keeps_audio)
    with pv have "files' ?ap \<noteq> None" by simp
    with dl Inr pv show ?thesis
      by (cases r) (simp_all add: extractFrames_def tryBlock_def unlink_if_exists_eq audio_not_video)
  qed
qed

text \<open>
  A run in which some capture yields a frame and the audio transcoding fails, whatever the
  directory held before.
\<close>

lemma audio_failure_run:
  assumes dl: "downloadStage w url (videoPathOf (tmpdir w) (now w)) files0 = (Inr u, files1)"
      and v: "files1 (videoPathOf (tmpdir w) (now w)) = Some v"
      and pr: "ffprobe w (Some v) = Metadata d"
      and good: "successfulFrames w (Some v) (sampleTimestamps (durationOf d) m) \<noteq> []"
      and au: "\<not> fst (ffmpeg_audio w (Some v))"
  shows "\<exists>files2. extractFrames w url m files0 =
           (Inl AudioExtractionError,
            (write_out (audioPathOf (tmpdir w) (now w)) (snd (ffmpeg_audio w (Some v))) files2)
              (videoPathOf (tmpdir w) (now w) := None))"
proof -
  let ?vp = "videoPathOf (tmpdir w) (now w)"
  let ?tss = "sampleTimestamps (durationOf d) m"
  have nv: "\<forall>t. framePathOf (tmpdir w) (now w) t \<noteq> ?vp"
    by (simp add: frame_not_video)
  have nv': "\<forall>t. ?vp \<noteq> framePathOf (tmpdir w) (now w) t"
    using nv by metis
  obtain frms files2 where fl: "frameLoop w (tmpdir w) (now w) ?vp ?tss [] files1 = (frms, files2)"
    by (cases "frameLoop w (tmpdir w) (now w) ?vp ?tss [] files1")
  from successfulFrames_nonempty[OF good]
  obtain t f where t: "t \<in> set ?tss" and f: "frameAt w (files1 ?vp) t = Some f"
    using v by auto
  have "f \<in> set (fst (frameLoop w (tmpdir w) (now w) ?vp ?tss [] files1))"
    using nv t f by (rule frameLoop_contains)
  with fl have ne: "frms \<noteq> []" by auto
  have "snd (frameLoop w (tmpdir w) (now w) ?vp ?tss [] files1) ?vp = files1 ?vp"
    using nv' by (rule frameLoop_other)
  with fl v have v2: "files2 ?vp = Some v" by simp
  have "tryBlock w url m files0 = finishExtraction w (frms, files2)"
    using tryBlock_after_probe[OF dl v pr, of m] fl by (simp add: extractionStage_def)
  then have "tryBlock w url m files0 =
           (Inl AudioExtractionError,
            write_out (audioPathOf (tmpdir w) (now w)) (snd (ffmpeg_audio w (Some v))) files2)"
    unfolding finishExtraction_spec[where loopFiles = files2, OF v2] using ne au
    by (simp add: Let_def)
  then show ?thesis by (auto simp: extractFrames_def unlink_if_exists_eq)
qed

subsection \<open>Runs in the example worlds\<close>

lemma length_video_bytes: "length video_bytes = 1000"
  by (simp add: video_bytes_def)

lemma direct_download_ok:
  assumes "\<not> str_includes url ''tiktok.com''"
      and "http_get w url = Response 200 (Complete b)"
      and "1000 \<le> length b"
  shows "downloadStage w url p files = (Inr (), files(p \<mapsto> b))"
  using assms by (simp add: downloadStage_def downloadDirect_def axios_get_def)

lemma not_tiktok:
  "\<not> str_includes demo_url ''tiktok.com''"
  "\<not> str_includes other_url ''tiktok.com''"
  by (simp_all add: demo_url_def other_url_def str_includes_def sublist_code)

lemma is_tiktok: "str_includes tiktok_url ''tiktok.com''"
  by (simp add: tiktok_url_def str_includes_def sublist_code)

lemma default_safe:
  "\<forall>t \<in> set (sampleTimestamps (durationOf (Some demo_duration)) None). isSafeInteger t"
  unfolding sample_32_4 by (simp add: isSafeInteger_def)

lemma override_safe:
  "\<forall>t \<in> set ts. isSafeInteger t
     \<Longrightarrow> \<forall>t \<in> set (sampleTimestamps d (Some ts)). isSafeInteger t"
  by (simp add: sampleTimestamps_def)

lemma eval_frame_paths:
  "framePathOf ''/tmp'' 1700000000000 2 = ''/tmp/frame_1700000000000_2.jpg''"
  "framePathOf ''/tmp'' 1700000000000 16 = ''/tmp/frame_1700000000000_16.jpg''"
  by (simp_all add: framePathOf_def frameFilename_def path_join_def show_int_def
      number_string_def show_nat.simps digit_char_def)

lemma demo_frames:
  "successfulFrames demo_world v [0, 2, 8, 16, 29] =
     [\<lparr>timestamp = 0, base64 = ''AQ=='', mimeType = ''image/jpeg''\<rparr>,
      \<lparr>timestamp = 8, base64 = ''AQ=='', mimeType = ''image/jpeg''\<rparr>,
      \<lparr>timestamp = 29, base64 = ''AQ=='', mimeType = ''image/jpeg''\<rparr>]"
  by (simp add: successfulFrames_def map_filter_simps frameAt_def captureResolves_def
      captureOutput_def demo_world_fields)

lemma demo_leftovers:
  "leftovers demo_world dir vid v [0, 2, 8, 16, 29] files = files"
  by (rule leftovers_none)
     (simp add: captureResolves_def captureOutput_def demo_world_fields)

lemma demo_extract_any:
  assumes "\<not> str_includes url ''tiktok.com''"
  shows "extractFrames demo_world url None Map.empty =
     (Inr \<lparr>frames = [\<lparr>timestamp = 0, base64 = ''AQ=='', mimeType = ''image/jpeg''\<rparr>,
                     \<lparr>timestamp = 8, base64 = ''AQ=='', mimeType = ''image/jpeg''\<rparr>,
                     \<lparr>timestamp = 29, base64 = ''AQ=='', mimeType = ''image/jpeg''\<rparr>],
           audioPath = ''/tmp/audio_1700000000000.mp3''\<rparr>,
      [''/tmp/audio_1700000000000.mp3'' \<mapsto> [2]])"
proof -
  let ?vp = "videoPathOf (tmpdir demo_world) (now demo_world)"
  have dl: "downloadStage demo_world url ?vp Map.empty = (Inr (), [?vp \<mapsto> video_bytes])"
    by (rule direct_download_ok) (simp_all add: assms demo_world_fields length_video_bytes)
  have v: "[?vp \<mapsto> video_bytes] ?vp = Some video_bytes" by simp
  have pr: "ffprobe demo_world (Some video_bytes) = Metadata (Some demo_duration)"
    by (simp add: demo_world_fields)
  have inv: "\<forall>t. [?vp \<mapsto> video_bytes] (framePathOf (tmpdir demo_world) (now demo_world) t) \<noteq> None
                  \<longrightarrow> \<not> captureResolves demo_world (Some video_bytes) t"
    by (simp add: frame_not_video)
  have ne: "''/tmp/socially_video_1700000000000.mp4'' \<noteq> ''/tmp/audio_1700000000000.mp3''"
    by simp
  show ?thesis
    unfolding extractFrames_spec[OF dl v pr inv default_safe] Let_def sample_32_4 demo_frames
      demo_leftovers
    by (simp add: demo_world_fields eval_paths write_out_def fun_upd_twist[OF ne])
qed

lemmas demo_extract = demo_extract_any[OF not_tiktok(1)]

lemma direct_hyps:
  assumes "\<not> str_includes url ''tiktok.com''"
      and "http_get w = (\<lambda>url. Response 200 (Complete video_bytes))"
      and "ffprobe w = (\<lambda>v. Metadata (Some demo_duration))"
  shows "downloadStage w url (videoPathOf (tmpdir w) (now w)) Map.empty
           = (Inr (), [videoPathOf (tmpdir w) (now w) \<mapsto> video_bytes])"
    and "[videoPathOf (tmpdir w) (now w) \<mapsto> video_bytes] (videoPathOf (tmpdir w) (now w))
           = Some video_bytes"
    and "ffprobe w (Some video_bytes) = Metadata (Some demo_duration)"
    and "\<forall>t. (Map.empty :: fs) (framePathOf (tmpdir w) (now w) t) = None"
proof -
  show "downloadStage w url (videoPathOf (tmpdir w) (now w)) Map.empty
           = (Inr (), [videoPathOf (tmpdir w) (now w) \<mapsto> video_bytes])"
    by (rule direct_download_ok) (simp_all add: assms length_video_bytes)
qed (simp_all add: assms)

lemma partial_world_fields:
  "now partial_world = 1700000000000"
  "tmpdir partial_world = ''/tmp''"
  "http_get partial_world = (\<lambda>url. Response 200 (Complete video_bytes))"
  "ffprobe partial_world = (\<lambda>v. Metadata (Some demo_duration))"
  "ffmpeg_frame partial_world =
     (\<lambda>mode v ts. if ts = 2 \<or> ts = 16 then (False, Some [9]) else (True, Some [1]))"
  "ffmpeg_audio partial_world = (\<lambda>v. (True, Some [2]))"
  "toBase64 partial_world = (\<lambda>b. ''AQ=='')"
  by (simp_all add: partial_world_def demo_world_def)

lemma audio_fail_world_fields:
  "now audio_fail_world = 1700000000000"
  "tmpdir audio_fail_world = ''/tmp''"
  "http_get audio_fail_world = (\<lambda>url. Response 200 (Complete video_bytes))"
  "ffprobe audio_fail_world = (\<lambda>v. Metadata (Some demo_duration))"
  "ffmpeg_frame audio_fail_world =
     (\<lambda>mode v ts. if ts = 2 \<or> ts = 16 then (False, None) else (True, Some [1]))"
  "ffmpeg_audio audio_fail_world = (\<lambda>v. (False, Some [3]))"
  "toBase64 audio_fail_world = (\<lambda>b. ''AQ=='')"
  by (simp_all add: audio_fail_world_def demo_world_def)


lemma all_frames_world_fields:
  "now all_frames_world = 1700000000000"
  "tmpdir all_frames_world = ''/tmp''"
  "http_get all_frames_world = (\<lambda>url. Response 200 (Complete video_bytes))"
  "ffprobe all_frames_world = (\<lambda>v. Metadata (Some demo_duration))"
  "ffmpeg_frame all_frames_world = (\<lambda>mode v ts. (True, Some [1]))"
  "ffmpeg_audio all_frames_world = (\<lambda>v. (True, Some [2]))"
  "toBase64 all_frames_world = (\<lambda>b. ''AQ=='')"
  by (simp_all add: all_frames_world_def demo_world_def)

lemma audio_fail_frames:
  "successfulFrames audio_fail_world v [0, 2, 8, 16, 29] =
     [\<lparr>timestamp = 0, base64 = ''AQ=='', mimeType = ''image/jpeg''\<rparr>,
      \<lparr>timestamp = 8, base64 = ''AQ=='', mimeType = ''image/jpeg''\<rparr>,
      \<lparr>timestamp = 29, base64 = ''AQ=='', mimeType = ''image/jpeg''\<rparr>]"
  by (simp add: successfulFrames_def map_filter_simps frameAt_def captureResolves_def
      captureOutput_def audio_fail_world_fields)

lemma partial_frames:
  "successfulFrames partial_world v [0, 2, 8, 16, 29] =
     [\<lparr>timestamp = 0, base64 = ''AQ=='', mimeType = ''image/jpeg''\<rparr>,
      \<lparr>timestamp = 8, base64 = ''AQ=='', mimeType = ''image/jpeg''\<rparr>,
      \<lparr>timestamp = 29, base64 = ''AQ=='', mimeType = ''image/jpeg''\<rparr>]"
  by (simp add: successfulFrames_def map_filter_simps frameAt_def captureResolves_def
      captureOutput_def partial_world_fields)

lemma partial_leftovers:
  "leftovers partial_world ''/tmp'' 1700000000000 v [0, 2, 8, 16, 29] files =
     files(''/tmp/frame_1700000000000_2.jpg'' \<mapsto> [9],
           ''/tmp/frame_1700000000000_16.jpg'' \<mapsto> [9])"
  by (simp add: captureResolves_def captureOutput_def partial_world_fields write_out_def
      eval_frame_paths)


lemma all_frames_100:
  "successfulFrames all_frames_world v [100] =
     [\<lparr>timestamp = 100, base64 = ''AQ=='', mimeType = ''image/jpeg''\<rparr>]"
  by (simp add: successfulFrames_def map_filter_simps frameAt_def captureResolves_def
      captureOutput_def all_frames_world_fields)

lemma demo_overrides:
  "successfulFrames demo_world v [40, 3] =
     [\<lparr>timestamp = 40, base64 = ''AQ=='', mimeType = ''image/jpeg''\<rparr>,
      \<lparr>timestamp = 3, base64 = ''AQ=='', mimeType = ''image/jpeg''\<rparr>]"
  by (simp add: successfulFrames_def map_filter_simps frameAt_def captureResolves_def
      captureOutput_def demo_world_fields)

lemma demo_override_leftovers:
  "leftovers demo_world dir vid v [40, 3] files = files"
  by (rule leftovers_none)
     (simp add: captureResolves_def captureOutput_def demo_world_fields)

text \<open>A duration that is not a number: the invocation ends at line 671.\<close>

lemma non_numeric_duration_raises:
  "extractFrames no_duration_world demo_url m Map.empty = (Inl TypeError, Map.empty)"
proof -
  let ?vp = "videoPathOf (tmpdir no_duration_world) (now no_duration_world)"
  have dl: "downloadStage no_duration_world demo_url ?vp Map.empty
              = (Inr (), [?vp \<mapsto> video_bytes])"
    by (rule direct_download_ok)
       (simp_all add: not_tiktok no_duration_world_def demo_world_def length_video_bytes)
  have pr: "ffprobe no_duration_world = (\<lambda>v. MetadataText ''N/A'')"
    by (simp add: no_duration_world_def)
  show ?thesis
    using dl pr
    by (simp add: extractFrames_def tryBlock_def processVideo_def Let_def unlink_if_exists_eq)
qed

subsection \<open>Cleanup of transient files\<close>

text \<open>
  Claim C2. The claim fails on the code. The loop deletes a frame file only in the branch
  that follows a capture that resolved (line 715); when both seeks of a capture fail after
  ffmpeg has written a partial file, the \<open>catch\<close> of the loop (lines 717--719) only logs,
  and no later statement deletes the file. Here the captures at the seconds 2 and 16 fail and
  leave a partial file each: the run succeeds with three frames, the video file is gone, and
  both partial frame files are still in the temporary directory.
\<close>

theorem frame_files_left_behind:
  "fst (extractFrames partial_world demo_url None Map.empty) =
     Inr \<lparr>frames = [\<lparr>timestamp = 0, base64 = ''AQ=='', mimeType = ''image/jpeg''\<rparr>,
                    \<lparr>timestamp = 8, base64 = ''AQ=='', mimeType = ''image/jpeg''\<rparr>,
                    \<lparr>timestamp = 29, base64 = ''AQ=='', mimeType = ''image/jpeg''\<rparr>],
          audioPath = ''/tmp/audio_1700000000000.mp3''\<rparr>
   \<and> snd (extractFrames partial_world demo_url None Map.empty)
       ''/tmp/socially_video_1700000000000.mp4'' = None
   \<and> snd (extractFrames partial_world demo_url None Map.empty)
       ''/tmp/frame_1700000000000_2.jpg'' = Some [9]
   \<and> snd (extractFrames partial_world demo_url None Map.empty)
       ''/tmp/frame_1700000000000_16.jpg'' = Some [9]"
proof -
  note h = direct_hyps[of demo_url partial_world, OF not_tiktok(1) partial_world_fields(3,4)]
  have inv: "\<forall>t. [videoPathOf (tmpdir partial_world) (now partial_world) \<mapsto> video_bytes]
                 (framePathOf (tmpdir partial_world) (now partial_world) t) \<noteq> None
                  \<longrightarrow> \<not> captureResolves partial_world (Some video_bytes) t"
    by (simp add: frame_not_video)
  show ?thesis
    unfolding extractFrames_spec[OF h(1) h(2) h(3) inv default_safe] Let_def sample_32_4
      partial_frames partial_world_fields partial_leftovers
    by (simp add: eval_paths write_out_def)
qed

subsection \<open>Manual timestamps\<close>

lemma finishExtraction_frames:
  assumes "fst (finishExtraction w (frms, files2)) = Inr r"
  shows "frames r = frms"
  using assms
  by (auto simp: finishExtraction_def Let_def split: if_splits prod.splits)

text \<open>
  Claim C3, as amended. For every caller-supplied manual timestamp list \<open>ts\<close>, once the video
  is downloaded and probed, whatever the duration: the default algorithm is bypassed and the
  frame loop runs over \<open>ts\<close> itself, unchanged and unfiltered. So in every result the
  timestamps of the frames are drawn from \<open>ts\<close> in its order, and every timestamp of \<open>ts\<close>
  whose capture yields a frame has that frame in the result, also a timestamp that is not
  below the duration.
\<close>

theorem override_used_verbatim:
  assumes dl: "downloadStage w url (videoPathOf (tmpdir w) (now w)) files0 = (Inr u, files1)"
      and v: "files1 (videoPathOf (tmpdir w) (now w)) = Some v"
      and pr: "ffprobe w (Some v) = Metadata d"
  shows "tryBlock w url (Some ts) files0 =
           finishExtraction w
             (frameLoop w (tmpdir w) (now w) (videoPathOf (tmpdir w) (now w)) ts [] files1)
       \<and> (\<forall>r. fst (extractFrames w url (Some ts) files0) = Inr r \<longrightarrow>
               subseq (map timestamp (frames r)) ts
             \<and> (\<forall>t \<in> set ts. \<forall>f. frameAt w (Some v) t = Some f \<longrightarrow> f \<in> set (frames r)))"
proof (intro conjI allI impI ballI)
  let ?vp = "videoPathOf (tmpdir w) (now w)"
  let ?loop = "frameLoop w (tmpdir w) (now w) ?vp ts [] files1"
  have tb: "tryBlock w url (Some ts) files0 = finishExtraction w ?loop"
    using tryBlock_after_probe[OF dl v pr, of "Some ts"]
    by (simp add: extractionStage_def sampleTimestamps_def)
  show "tryBlock w url (Some ts) files0 = finishExtraction w ?loop" by (rule tb)
  have nv: "\<forall>t. framePathOf (tmpdir w) (now w) t \<noteq> ?vp"
    by (simp add: frame_not_video)
  have fr: "frames r = fst ?loop" if "fst (extractFrames w url (Some ts) files0) = Inr r" for r
  proof -
    from that have "fst (finishExtraction w ?loop) = Inr r"
      unfolding extractFrames_def tb by (auto split: prod.splits sum.splits)
    then have "fst (finishExtraction w (fst ?loop, snd ?loop)) = Inr r" by simp
    then show ?thesis by (rule finishExtraction_frames)
  qed
  {
    fix r assume r: "fst (extractFrames w url (Some ts) files0) = Inr r"
    obtain xs where "fst ?loop = [] @ xs" and "subseq (map timestamp xs) ts"
      using frameLoop_timestamps by blast
    with fr[OF r] show "subseq (map timestamp (frames r)) ts" by simp
  }
  {
    fix r t f
    assume r: "fst (extractFrames w url (Some ts) files0) = Inr r"
       and t: "t \<in> set ts" and f: "frameAt w (Some v) t = Some f"
    from f v have "frameAt w (files1 ?vp) t = Some f" by simp
    with nv t have "f \<in> set (fst ?loop)" by (rule frameLoop_contains)
    with fr[OF r] show "f \<in> set (frames r)" by simp
  }
qed

theorem override_used_verbatim_witness:
  "tryBlock demo_world demo_url (Some [40, 3]) Map.empty =
     finishExtraction demo_world
       (frameLoop demo_world ''/tmp'' 1700000000000 ''/tmp/socially_video_1700000000000.mp4''
          [40, 3] [] [''/tmp/socially_video_1700000000000.mp4'' \<mapsto> video_bytes])
   \<and> fst (extractFrames demo_world demo_url (Some [40, 3]) Map.empty) =
       Inr \<lparr>frames = [\<lparr>timestamp = 40, base64 = ''AQ=='', mimeType = ''image/jpeg''\<rparr>,
                      \<lparr>timestamp = 3, base64 = ''AQ=='', mimeType = ''image/jpeg''\<rparr>],
            audioPath = ''/tmp/audio_1700000000000.mp3''\<rparr>"
proof -
  note h = direct_hyps[of demo_url demo_world, OF not_tiktok(1) demo_world_fields(3,8)]
  have inv: "\<forall>t. [videoPathOf (tmpdir demo_world) (now demo_world) \<mapsto> video_bytes]
                 (framePathOf (tmpdir demo_world) (now demo_world) t) \<noteq> None
                  \<longrightarrow> \<not> captureResolves demo_world (Some video_bytes) t"
    by (simp add: frame_not_video)
  have s: "sampleTimestamps (durationOf (Some demo_duration)) (Some [40, 3]) = [40, 3]"
    by (simp add: sampleTimestamps_def)
  have safe: "\<forall>t \<in> set (sampleTimestamps (durationOf (Some demo_duration)) (Some [40, 3])).
                isSafeInteger t"
    unfolding s by (simp add: isSafeInteger_def)
  have run: "fst (extractFrames demo_world demo_url (Some [40, 3]) Map.empty) =
       Inr \<lparr>frames = [\<lparr>timestamp = 40, base64 = ''AQ=='', mimeType = ''image/jpeg''\<rparr>,
                      \<lparr>timestamp = 3, base64 = ''AQ=='', mimeType = ''image/jpeg''\<rparr>],
            audioPath = ''/tmp/audio_1700000000000.mp3''\<rparr>"
    unfolding extractFrames_spec[OF h(1) h(2) h(3) inv safe] Let_def s demo_overrides
    by (simp add: demo_world_fields eval_paths)
  have "tryBlock demo_world demo_url (Some [40, 3]) Map.empty =
     finishExtraction demo_world
       (frameLoop demo_world (tmpdir demo_world) (now demo_world)
          (videoPathOf (tmpdir demo_world) (now demo_world)) [40, 3] []
          [videoPathOf (tmpdir demo_world) (now demo_world) \<mapsto> video_bytes])"
    using override_used_verbatim[OF h(1) h(2) h(3), of "[40, 3]"] by (rule conjunct1)
  then have "tryBlock demo_world demo_url (Some [40, 3]) Map.empty =
     finishExtraction demo_world
       (frameLoop demo_world ''/tmp'' 1700000000000 ''/tmp/socially_video_1700000000000.mp4''
          [40, 3] [] [''/tmp/socially_video_1700000000000.mp4'' \<mapsto> video_bytes])"
    unfolding demo_world_fields eval_paths .
  with run show ?thesis by (rule conjI[rotated])
qed

text \<open>
  The claim as stated fails: the filter \<open>t < duration\<close> sits inside the branch
  \<open>if (!timestamps)\<close> (lines 659--668), so an override of \<open>[100]\<close> on a video of 32.4
  seconds is not filtered to the empty list; a frame is captured at second 100.
\<close>

theorem override_not_filtered:
  "sampleTimestamps (durationOf (Some demo_duration)) (Some [100]) = [100]
   \<and> filter (\<lambda>t. real_of_int t < durationOf (Some demo_duration)) [100] = []
   \<and> fst (extractFrames all_frames_world demo_url (Some [100]) Map.empty) =
       Inr \<lparr>frames = [\<lparr>timestamp = 100, base64 = ''AQ=='', mimeType = ''image/jpeg''\<rparr>],
            audioPath = ''/tmp/audio_1700000000000.mp3''\<rparr>"
proof -
  note h = direct_hyps[of demo_url all_frames_world, OF not_tiktok(1) all_frames_world_fields(3,4)]
  have inv: "\<forall>t. [videoPathOf (tmpdir all_frames_world) (now all_frames_world) \<mapsto> video_bytes]
                 (framePathOf (tmpdir all_frames_world) (now all_frames_world) t) \<noteq> None
                  \<longrightarrow> \<not> captureResolves all_frames_world (Some video_bytes) t"
    by (simp add: frame_not_video)
  have s: "sampleTimestamps (durationOf (Some demo_duration)) (Some [100]) = [100]"
    by (simp add: sampleTimestamps_def)
  have safe: "\<forall>t \<in> set (sampleTimestamps (durationOf (Some demo_duration)) (Some [100])).
                isSafeInteger t"
    unfolding s by (simp add: isSafeInteger_def)
  have "\<not> 100 < demo_duration" unfolding demo_duration_value by simp
  then have f: "filter (\<lambda>t. real_of_int t < durationOf (Some demo_duration)) [100] = []"
    unfolding durationOf_demo by simp
  have "fst (extractFrames all_frames_world demo_url (Some [100]) Map.empty) =
       Inr \<lparr>frames = [\<lparr>timestamp = 100, base64 = ''AQ=='', mimeType = ''image/jpeg''\<rparr>],
            audioPath = ''/tmp/audio_1700000000000.mp3''\<rparr>"
    unfolding extractFrames_spec[OF h(1) h(2) h(3) inv safe] Let_def s all_frames_100
    by (simp add: all_frames_world_fields eval_paths)
  with s f show ?thesis by simp
qed

subsection \<open>Frame failures and audio failure\<close>




text \<open>
  Claim C5. When frames were extracted and the single audio transcoding run fails,
  \<open>extractFrames\<close> raises an error, so the frames are not returned, and the video file is
  deleted when the error leaves the function.
\<close>

theorem audio_failure_is_fatal:
  assumes dl: "downloadStage w url (videoPathOf (tmpdir w) (now w)) files0 = (Inr u, files1)"
      and v: "files1 (videoPathOf (tmpdir w) (now w)) = Some v"
      and pr: "ffprobe w (Some v) = Metadata d"
      and clean: "\<forall>t. files0 (framePathOf (tmpdir w) (now w) t) = None"
      and good: "successfulFrames w (Some v) (sampleTimestamps (durationOf d) m) \<noteq> []"
      and au: "\<not> fst (ffmpeg_audio w (Some v))"
  shows "fst (extractFrames w url m files0) = Inl AudioExtractionError
       \<and> snd (extractFrames w url m files0) (videoPathOf (tmpdir w) (now w)) = None"
proof -
  from audio_failure_run[OF dl v pr good au] obtain files2 where
    "extractFrames w url m files0 =
       (Inl AudioExtractionError,
        (write_out (audioPathOf (tmpdir w) (now w)) (snd (ffmpeg_audio w (Some v))) files2)
          (videoPathOf (tmpdir w) (now w) := None))"
    by blast
  then show ?thesis by simp
qed

theorem audio_failure_is_fatal_witness:
  "fst (extractFrames audio_fail_world demo_url None Map.empty) = Inl AudioExtractionError
   \<and> snd (extractFrames audio_fail_world demo_url None Map.empty)
       ''/tmp/socially_video_1700000000000.mp4'' = None"
proof -
  note h = direct_hyps[of demo_url audio_fail_world, OF not_tiktok(1) audio_fail_world_fields(3,4)]
  have good: "successfulFrames audio_fail_world (Some video_bytes)
                (sampleTimestamps (durationOf (Some demo_duration)) None) \<noteq> []"
    unfolding sample_32_4 audio_fail_frames by simp
  have au: "\<not> fst (ffmpeg_audio audio_fail_world (Some video_bytes))"
    by (simp add: audio_fail_world_fields)
  show ?thesis
    using audio_failure_is_fatal[OF h good au]
    by (simp add: audio_fail_world_fields eval_paths)
qed

text \<open>
  Claim C10. When the audio transcoding fails after writing a partial file, the invocation
  fails and the partial audio file is still in the temporary directory afterwards: the
  \<open>catch\<close> block changes no path but the video path, and no run of \<open>extractFrames\<close>,
  whatever its exit, deletes a file at the audio path.
\<close>

theorem audio_file_survives_failure:
  assumes dl: "downloadStage w url (videoPathOf (tmpdir w) (now w)) files0 = (Inr u, files1)"
      and v: "files1 (videoPathOf (tmpdir w) (now w)) = Some v"
      and pr: "ffprobe w (Some v) = Metadata d"
      and clean: "\<forall>t. files0 (framePathOf (tmpdir w) (now w) t) = None"
      and good: "successfulFrames w (Some v) (sampleTimestamps (durationOf d) m) \<noteq> []"
      and au: "ffmpeg_audio w (Some v) = (False, Some part)"
  shows "fst (extractFrames w url m files0) = Inl AudioExtractionError
       \<and> snd (extractFrames w url m files0) (audioPathOf (tmpdir w) (now w)) = Some part
       \<and> (\<forall>p. p \<noteq> videoPathOf (tmpdir w) (now w) \<longrightarrow>
              snd (extractFrames w url m files0) p = snd (tryBlock w url m files0) p)
       \<and> (\<forall>url' m' files. files (audioPathOf (tmpdir w) (now w)) \<noteq> None \<longrightarrow>
              snd (extractFrames w url' m' files) (audioPathOf (tmpdir w) (now w)) \<noteq> None)"
proof (intro conjI allI impI)
  have nau: "\<not> fst (ffmpeg_audio w (Some v))" using au by simp
  from audio_failure_run[OF dl v pr good nau] obtain files2 where
    run: "extractFrames w url m files0 =
       (Inl AudioExtractionError,
        (write_out (audioPathOf (tmpdir w) (now w)) (snd (ffmpeg_audio w (Some v))) files2)
          (videoPathOf (tmpdir w) (now w) := None))"
    by blast
  show "fst (extractFrames w url m files0) = Inl AudioExtractionError"
    by (simp add: run)
  show "snd (extractFrames w url m files0) (audioPathOf (tmpdir w) (now w)) = Some part"
    by (simp add: run au audio_not_video write_out_def)
next
  fix p assume "p \<noteq> videoPathOf (tmpdir w) (now w)"
  then show "snd (extractFrames w url m files0) p = snd (tryBlock w url m files0) p"
    by (simp add: extractFrames_def unlink_if_exists_eq split: prod.splits sum.splits)
next
  fix url' m' and files :: fs
  assume "files (audioPathOf (tmpdir w) (now w)) \<noteq> None"
  then show "snd (extractFrames w url' m' files) (audioPathOf (tmpdir w) (now w)) \<noteq> None"
    by (rule extractFrames_keeps_audio)
qed

theorem audio_file_survives_failure_witness:
  "fst (extractFrames audio_fail_world demo_url None Map.empty) = Inl AudioExtractionError
   \<and> snd (extractFrames audio_fail_world demo_url None Map.empty)
       ''/tmp/audio_1700000000000.mp3'' = Some [3]"
proof -
  note h = direct_hyps[of demo_url audio_fail_world, OF not_tiktok(1) audio_fail_world_fields(3,4)]
  have good: "successfulFrames audio_fail_world (Some video_bytes)
                (sampleTimestamps (durationOf (Some demo_duration)) None) \<noteq> []"
    unfolding sample_32_4 audio_fail_frames by simp
  have au: "ffmpeg_audio audio_fail_world (Some video_bytes) = (False, Some [3])"
    by (simp add: audio_fail_world_fields)
  show ?thesis
    using audio_file_survives_failure[OF h good au]
    by (simp add: audio_fail_world_fields eval_paths)
qed

subsection \<open>The fetcher\<close>

text \<open>
  Claim C6. Whenever the streamed body is complete and shorter than 1000 bytes,
  \<open>downloadDirect\<close> raises an error instead of reporting success; with HTTP status 200 the
  error is the one of line 545 (the file is too small).
\<close>

theorem undersized_download_rejected:
  assumes "http_get w url = Response status (Complete b)" and "length b < 1000"
  shows "(\<exists>e. fst (downloadDirect w url destPath files) = Inl e)
       \<and> (status = 200 \<longrightarrow>
            fst (downloadDirect w url destPath files) = Inl (FileTooSmall (length b)))"
  using assms by (simp add: downloadDirect_def axios_get_def)

theorem undersized_download_rejected_witness:
  "fst (downloadDirect small_world demo_url ''/tmp/socially_video_1700000000000.mp4'' Map.empty)
     = Inl (FileTooSmall 12)"
proof -
  have h: "http_get small_world demo_url = Response 200 (Complete (replicate 12 0))"
    by (simp add: small_world_def demo_world_def)
  have l: "length (replicate 12 (0 :: 8 word)) < 1000" by simp
  show ?thesis
    using undersized_download_rejected[OF h l] by simp
qed

subsection \<open>Resolution strategies\<close>

text \<open>
  Claim C7, as amended. For a URL of the known platform: when the tikwm API fails or returns
  no usable URL, or when the download of the resolved URL fails, the download stage is exactly
  the run of \<open>downloadWithYtDlp\<close> (on the files as the failed attempt left them), so yt-dlp
  is tried before any error is raised. When no yt-dlp binary is found, \<open>downloadWithYtDlp\<close>
  itself raises (line 596), and after a failed resolution, or a failed download of the
  resolved URL, this error is the one the invocation fails with.
\<close>

theorem ytdlp_fallback:
  assumes "str_includes url ''tiktok.com''"
  shows "(\<forall>e. resolveTikTokUrl w url = Inl e \<longrightarrow>
            downloadStage w url destPath files = downloadWithYtDlp w url destPath files)
       \<and> (\<forall>u e files'. resolveTikTokUrl w url = Inr u
              \<and> downloadDirect w u destPath files = (Inl e, files') \<longrightarrow>
            downloadStage w url destPath files = downloadWithYtDlp w url destPath files')
       \<and> (\<not> truthy (find_ytdlp w) \<longrightarrow>
            downloadWithYtDlp w url destPath files = (Inl YtDlpNotAvailable, files))
       \<and> (\<not> truthy (find_ytdlp w) \<and> (\<exists>e. resolveTikTokUrl w url = Inl e) \<longrightarrow>
            fst (extractFrames w url m files) = Inl YtDlpNotAvailable)
       \<and> (\<not> truthy (find_ytdlp w)
            \<and> (\<exists>u e files'. resolveTikTokUrl w url = Inr u
                  \<and> downloadDirect w u (videoPathOf (tmpdir w) (now w)) files = (Inl e, files'))
            \<longrightarrow> fst (extractFrames w url m files) = Inl YtDlpNotAvailable)"
  using assms
  by (auto simp: downloadStage_def downloadWithYtDlp_def extractFrames_def tryBlock_def)

lemma ytdlp_world_fields:
  "tikwm ytdlp_world = (\<lambda>url. ApiRejected)"
  "localBin_exists ytdlp_world = False"
  "which_ytdlp ytdlp_world = Some ''/usr/bin/yt-dlp''"
  "ytdlp_exec ytdlp_world = (\<lambda>url. (True, Some video_bytes))"
  by (simp_all add: ytdlp_world_def demo_world_def)

lemma demo_resolve: "resolveTikTokUrl demo_world url = Inl AxiosError"
  by (simp add: resolveTikTokUrl_def demo_world_fields)

theorem ytdlp_fallback_witness:
  "downloadStage ytdlp_world tiktok_url ''/tmp/socially_video_1700000000000.mp4'' Map.empty
     = (Inr (), [''/tmp/socially_video_1700000000000.mp4'' \<mapsto> video_bytes])
   \<and> fst (extractFrames demo_world tiktok_url None Map.empty) = Inl YtDlpNotAvailable
   \<and> fst (extractFrames tikwm_small_world tiktok_url None Map.empty) = Inl YtDlpNotAvailable"
proof -
  have r: "resolveTikTokUrl ytdlp_world tiktok_url = Inl AxiosError"
    by (simp add: resolveTikTokUrl_def ytdlp_world_fields)
  have n: "\<not> truthy (find_ytdlp demo_world)"
    by (simp add: find_ytdlp_def truthy_def demo_world_fields)
  have 1: "downloadStage ytdlp_world tiktok_url ''/tmp/socially_video_1700000000000.mp4''
             Map.empty
           = (Inr (), [''/tmp/socially_video_1700000000000.mp4'' \<mapsto> video_bytes])"
    using ytdlp_fallback[OF is_tiktok, of ytdlp_world
        "''/tmp/socially_video_1700000000000.mp4''" Map.empty] r
    by (simp add: downloadWithYtDlp_def find_ytdlp_def truthy_def ytdlp_world_fields
        write_out_def)
  have 2: "fst (extractFrames demo_world tiktok_url None Map.empty) = Inl YtDlpNotAvailable"
    using ytdlp_fallback[OF is_tiktok, of demo_world _ _ None] n demo_resolve[of tiktok_url]
    by blast
  have f: "tikwm tikwm_small_world =
             (\<lambda>url. ApiResponse (Some
               \<lparr>code = Some 0,
                data = Some \<lparr>play = Some ''https://v.example/play.mp4'',
                             hdplay = Some ''https://v.example/hd.mp4'',
                             wmplay = Some ''https://v.example/wm.mp4''\<rparr>\<rparr>))"
    "http_get tikwm_small_world = (\<lambda>url. Response 200 (Complete (replicate 12 0)))"
    "localBin_exists tikwm_small_world = False"
    "which_ytdlp tikwm_small_world = None"
    by (simp_all add: tikwm_small_world_def tikwm_world_def demo_world_def)
  have r3: "resolveTikTokUrl tikwm_small_world tiktok_url = Inr ''https://v.example/play.mp4''"
    by (simp add: resolveTikTokUrl_def f js_or_def truthy_def)
  have n3: "\<not> truthy (find_ytdlp tikwm_small_world)"
    by (simp add: find_ytdlp_def truthy_def f)
  have d3: "downloadDirect tikwm_small_world ''https://v.example/play.mp4''
              (videoPathOf (tmpdir tikwm_small_world) (now tikwm_small_world)) Map.empty
            = (Inl (FileTooSmall 12),
               [videoPathOf (tmpdir tikwm_small_world) (now tikwm_small_world)
                  \<mapsto> replicate 12 0])"
    by (simp add: downloadDirect_def axios_get_def f)
  have 3: "fst (extractFrames tikwm_small_world tiktok_url None Map.empty)
             = Inl YtDlpNotAvailable"
    using ytdlp_fallback[OF is_tiktok, of tikwm_small_world _ Map.empty None] n3 r3 d3
    by blast
  from 1 2 3 show ?thesis by simp
qed

text \<open>
  The claim as stated fails: a missing binary is not skipped over. With the API failing and no
  yt-dlp installed, the error of the resolution is dropped (line 631 only logs it) and the
  invocation fails with the error that yt-dlp is not available.
\<close>

theorem missing_ytdlp_aborts:
  "resolveTikTokUrl demo_world tiktok_url = Inl AxiosError
   \<and> find_ytdlp demo_world = None
   \<and> extractFrames demo_world tiktok_url None Map.empty = (Inl YtDlpNotAvailable, Map.empty)"
  by (simp add: demo_resolve find_ytdlp_def extractFrames_def tryBlock_def downloadStage_def
      is_tiktok downloadWithYtDlp_def truthy_def demo_world_fields unlink_if_exists_def)

text \<open>
  Claim C8. For a successful tikwm response (code 0 with a data object): a non-empty play URL
  is selected whatever else is offered, in particular when an HD variant is offered too; the
  HD variant is selected only without a play URL; the watermarked variant only when neither
  is there.
\<close>

theorem play_url_preferred:
  assumes "tikwm w (takeWhile (\<lambda>c. c \<noteq> CHR ''?'') url) = ApiResponse (Some b)"
      and "code b = Some 0"
      and "data b = Some d"
  shows "(\<forall>p. play d = Some p \<and> p \<noteq> [] \<longrightarrow> resolveTikTokUrl w url = Inr p)
       \<and> (\<not> truthy (play d) \<longrightarrow>
            (\<forall>h. hdplay d = Some h \<and> h \<noteq> [] \<longrightarrow> resolveTikTokUrl w url = Inr h))
       \<and> (\<not> truthy (play d) \<and> \<not> truthy (hdplay d) \<longrightarrow>
            (\<forall>u. wmplay d = Some u \<and> u \<noteq> [] \<longrightarrow> resolveTikTokUrl w url = Inr u))
       \<and> (\<not> truthy (play d) \<and> \<not> truthy (hdplay d) \<and> \<not> truthy (wmplay d) \<longrightarrow>
            resolveTikTokUrl w url = Inl TikwmFailed)"
  using assms
  by (auto simp: resolveTikTokUrl_def js_or_def truthy_def split: option.splits)

theorem play_url_preferred_witness:
  "resolveTikTokUrl tikwm_world tiktok_url = Inr ''https://v.example/play.mp4''
   \<and> resolveTikTokUrl hd_only_world tiktok_url = Inr ''https://v.example/hd.mp4''
   \<and> resolveTikTokUrl wm_only_world tiktok_url = Inr ''https://v.example/wm.mp4''"
proof -
  let ?d = "\<lparr>play = Some ''https://v.example/play.mp4'',
             hdplay = Some ''https://v.example/hd.mp4'',
             wmplay = Some ''https://v.example/wm.mp4''\<rparr>"
  let ?b = "\<lparr>code = Some 0, data = Some ?d\<rparr>"
  let ?dh = "\<lparr>play = None, hdplay = Some ''https://v.example/hd.mp4'',
              wmplay = Some ''https://v.example/wm.mp4''\<rparr>"
  let ?bh = "\<lparr>code = Some 0, data = Some ?dh\<rparr>"
  let ?dw = "\<lparr>play = Some [], hdplay = None,
              wmplay = Some ''https://v.example/wm.mp4''\<rparr>"
  let ?bw = "\<lparr>code = Some 0, data = Some ?dw\<rparr>"
  have t: "tikwm tikwm_world (takeWhile (\<lambda>c. c \<noteq> CHR ''?'') tiktok_url) = ApiResponse (Some ?b)"
    by (simp add: tikwm_world_def demo_world_def)
  have th: "tikwm hd_only_world (takeWhile (\<lambda>c. c \<noteq> CHR ''?'') tiktok_url)
              = ApiResponse (Some ?bh)"
    by (simp add: hd_only_world_def demo_world_def)
  have tw: "tikwm wm_only_world (takeWhile (\<lambda>c. c \<noteq> CHR ''?'') tiktok_url)
              = ApiResponse (Some ?bw)"
    by (simp add: wm_only_world_def demo_world_def)
  have 1: "resolveTikTokUrl tikwm_world tiktok_url = Inr ''https://v.example/play.mp4''"
    using play_url_preferred[OF t, of ?d] by simp
  have 2: "resolveTikTokUrl hd_only_world tiktok_url = Inr ''https://v.example/hd.mp4''"
    using play_url_preferred[OF th, of ?dh] by (simp add: truthy_def)
  have 3: "resolveTikTokUrl wm_only_world tiktok_url = Inr ''https://v.example/wm.mp4''"
    using play_url_preferred[OF tw, of ?dw] by (simp add: truthy_def)
  from 1 2 3 show ?thesis by simp
qed

subsection \<open>Transient file names\<close>

text \<open>
  Every transient file name embeds \<open>videoId\<close>: two invocations whose \<open>videoId\<close> differ never
  produce the same path in a shared directory, whatever the kind of file and the timestamp.
  (\<open>Date.now()\<close> is below \<open>2\<^sup>5\<^sup>3\<close>.)
\<close>

lemma distinct_ids_distinct_paths:
  assumes "a \<noteq> b" and a: "a < 2 ^ 53" and b: "b < 2 ^ 53"
  shows "videoPathOf dir a \<noteq> videoPathOf dir b
       \<and> audioPathOf dir a \<noteq> audioPathOf dir b
       \<and> (\<forall>s t. framePathOf dir a s \<noteq> framePathOf dir b t)
       \<and> videoPathOf dir a \<noteq> audioPathOf dir b
       \<and> audioPathOf dir a \<noteq> videoPathOf dir b
       \<and> (\<forall>t. videoPathOf dir a \<noteq> framePathOf dir b t)
       \<and> (\<forall>t. audioPathOf dir a \<noteq> framePathOf dir b t)
       \<and> (\<forall>t. framePathOf dir a t \<noteq> videoPathOf dir b)
       \<and> (\<forall>t. framePathOf dir a t \<noteq> audioPathOf dir b)"
proof -
  have "videoPathOf dir a \<noteq> videoPathOf dir b"
    using assms videoPathOf_inj[OF a b] by blast
  moreover have "audioPathOf dir a \<noteq> audioPathOf dir b"
    using assms audioPathOf_inj[OF a b] by blast
  moreover have "\<forall>s t. framePathOf dir a s \<noteq> framePathOf dir b t"
    using assms framePathOf_id_inj[OF a b] by blast
  moreover have "videoPathOf dir a \<noteq> audioPathOf dir b" using audio_not_video[of dir b a] by simp
  moreover have "audioPathOf dir a \<noteq> videoPathOf dir b" by (rule audio_not_video)
  moreover have "\<forall>t. videoPathOf dir a \<noteq> framePathOf dir b t"
    using frame_not_video[of dir b _ a] by metis
  moreover have "\<forall>t. audioPathOf dir a \<noteq> framePathOf dir b t"
    using frame_not_audio[of dir b _ a] by metis
  moreover have "\<forall>t. framePathOf dir a t \<noteq> videoPathOf dir b" by (simp add: frame_not_video)
  moreover have "\<forall>t. framePathOf dir a t \<noteq> audioPathOf dir b" by (simp add: frame_not_audio)
  ultimately show ?thesis by blast
qed

text \<open>
  Claim C9. The claim fails on the code. The identifier embedded in the names is \<open>videoId\<close>,
  the millisecond clock read at line 616, which is not unique to an invocation: two
  invocations for different URLs that read the same clock value use the same video, frame and
  audio paths. Here both return the same audio path.
\<close>

theorem same_clock_same_paths:
  "demo_url \<noteq> other_url
   \<and> fst (extractFrames demo_world demo_url None Map.empty) =
       Inr \<lparr>frames = [\<lparr>timestamp = 0, base64 = ''AQ=='', mimeType = ''image/jpeg''\<rparr>,
                      \<lparr>timestamp = 8, base64 = ''AQ=='', mimeType = ''image/jpeg''\<rparr>,
                      \<lparr>timestamp = 29, base64 = ''AQ=='', mimeType = ''image/jpeg''\<rparr>],
            audioPath = ''/tmp/audio_1700000000000.mp3''\<rparr>
   \<and> fst (extractFrames demo_world other_url None Map.empty) =
       Inr \<lparr>frames = [\<lparr>timestamp = 0, base64 = ''AQ=='', mimeType = ''image/jpeg''\<rparr>,
                      \<lparr>timestamp = 8, base64 = ''AQ=='', mimeType = ''image/jpeg''\<rparr>,
                      \<lparr>timestamp = 29, base64 = ''AQ=='', mimeType = ''image/jpeg''\<rparr>],
            audioPath = ''/tmp/audio_1700000000000.mp3''\<rparr>"
proof (intro conjI)
  show "demo_url \<noteq> other_url" by (simp add: demo_url_def other_url_def)
qed (simp_all add: demo_extract_any[OF not_tiktok(1)] demo_extract_any[OF not_tiktok(2)])

subsection \<open>The earlier variant\<close>

lemma downloadDirect_old_accepts_small:
  "fst (downloadDirect_old small_world demo_url ''/tmp/video_1700000000000.mp4'' Map.empty)
     = Inr ()"
  by (simp add: downloadDirect_old_def axios_get_def small_world_def demo_world_def)

lemma resolveTikTokUrl_old_prefers_hd:
  "resolveTikTokUrl_old tikwm_world tiktok_url = Inr ''https://v.example/hd.mp4''"
  by (simp add: resolveTikTokUrl_old_def tikwm_world_def demo_world_def js_or_def truthy_def)


end
